theory Spec2Isabelle
  imports Main "HOL-Library.Product_Lexorder"
begin

section \<open>Python values shared by all variants\<close>

text \<open>
  A cell is a pair of Python integers \<open>(x, y)\<close>. The module-level grid \<open>maze\<close> is a
  list of rows, read as \<open>maze[y][x]\<close>. The exceptions that the modelled code can raise
  are values of \<open>py_error\<close>.
\<close>

type_synonym cell = "int \<times> int"

datatype py_error = IndexError | KeyError | ValueError

text \<open>Python list indexing \<open>xs[i]\<close>: a negative index counts from the end, an index out
  of range raises \<open>IndexError\<close>.\<close>

definition py_index :: "'a list \<Rightarrow> int \<Rightarrow> py_error + 'a" where
  "py_index xs i =
     (let n = int (length xs); j = (if i < 0 then i + n else i)
      in if 0 \<le> j \<and> j < n then Inr (xs ! nat j) else Inl IndexError)"

text \<open>\<open>maze[y][x]\<close>.\<close>

definition maze_at :: "int list list \<Rightarrow> int \<Rightarrow> int \<Rightarrow> py_error + int" where
  "maze_at mz x y = (case py_index mz y of Inl e \<Rightarrow> Inl e | Inr row \<Rightarrow> py_index row x)"

text \<open>Python list item assignment \<open>xs[i] = v\<close>.\<close>

definition py_setitem :: "'a list \<Rightarrow> int \<Rightarrow> 'a \<Rightarrow> py_error + 'a list" where
  "py_setitem xs i v =
     (let n = int (length xs); j = (if i < 0 then i + n else i)
      in if 0 \<le> j \<and> j < n then Inr (xs[nat j := v]) else Inl IndexError)"

text \<open>\<open>maze[y][x] = v\<close>: the row is looked up, then assigned in place.\<close>

definition maze_set :: "int list list \<Rightarrow> int \<Rightarrow> int \<Rightarrow> int \<Rightarrow> py_error + int list list" where
  "maze_set mz x y v =
     (case py_index mz y of Inl e \<Rightarrow> Inl e
      | Inr row \<Rightarrow> (case py_setitem row x v of Inl e \<Rightarrow> Inl e
                    | Inr row' \<Rightarrow> py_setitem mz y row'))"

text \<open>The four offsets, in the order every variant enumerates them:
  left, right, up, down.\<close>

definition offsets :: "cell list" where
  "offsets = [(-1, 0), (1, 0), (0, -1), (0, 1)]"

text \<open>The cells one step away, in the order of \<open>offsets\<close>.\<close>

definition around :: "cell \<Rightarrow> cell list" where
  "around pos = map (\<lambda>d. (fst pos + fst d, snd pos + snd d)) offsets"

text \<open>\<open>min(xs, key=f)\<close>: the first element with the least key; \<open>ValueError\<close> on an
  empty list.\<close>

fun min_key_from :: "('a \<Rightarrow> int) \<Rightarrow> 'a \<Rightarrow> 'a list \<Rightarrow> 'a" where
  "min_key_from key best [] = best"
| "min_key_from key best (x # xs) =
     (if key x < key best then min_key_from key x xs else min_key_from key best xs)"

definition py_min :: "('a \<Rightarrow> int) \<Rightarrow> 'a list \<Rightarrow> py_error + 'a" where
  "py_min key xs = (case xs of [] \<Rightarrow> Inl ValueError | x # rest \<Rightarrow> Inr (min_key_from key x rest))"

subsection \<open>Formatting of printed lines\<close>

text \<open>\<open>str\<close> of a Python integer and of a pair of integers, as an f-string renders
  them.\<close>

definition digit_char :: "nat \<Rightarrow> char" where
  "digit_char d = ''0123456789'' ! d"

fun show_nat :: "nat \<Rightarrow> string" where
  "show_nat n = (if n < 10 then [digit_char n] else show_nat (n div 10) @ [digit_char (n mod 10)])"

declare show_nat.simps [simp del]

definition show_int :: "int \<Rightarrow> string" where
  "show_int i = (if i < 0 then CHR ''-'' # show_nat (nat (- i)) else show_nat (nat i))"

definition show_cell :: "cell \<Rightarrow> string" where
  "show_cell c = ''('' @ show_int (fst c) @ '', '' @ show_int (snd c) @ '')''"

section \<open>Module globals and the agent object\<close>

text \<open>
  The module globals that the planner variants read or write: the grid dimensions, the
  \<open>maze\<close> array and the lines written by \<open>print\<close>.
\<close>

record world =
  GRID_WIDTH :: int
  GRID_HEIGHT :: int
  maze :: "int list list"
  stdout :: "string list"

definition print :: "string \<Rightarrow> 'a world_scheme \<Rightarrow> 'a world_scheme" where
  "print s w = w\<lparr>stdout := stdout w @ [s]\<rparr>"

datatype NPCState = IDLE | MOVING | GOAL_REACHED | BACKTRACKING

text \<open>The fields that \<open>NPC.__init__\<close> sets in every incremental variant
  (\<^verbatim>\<open>lrtastar.py\<close>, \<^verbatim>\<open>game10.py\<close>, \<^verbatim>\<open>game11.py\<close>).\<close>

record npc =
  position :: cell
  previous_position :: "cell option"
  goal :: cell
  path :: "cell list"
  visited :: "cell list"
  fsm :: NPCState

text \<open>\<^verbatim>\<open>game10.py\<close> and \<^verbatim>\<open>game11.py\<close> add the learned cost dictionary.\<close>

record npc10 = npc +
  cell_costs :: "cell \<rightharpoonup> int"

text \<open>\<^verbatim>\<open>game11.py\<close> adds the open list (a \<open>heapq\<close> of \<open>(f, cell)\<close>) and the closed set.\<close>

record npc11 = npc10 +
  open_list :: "(int \<times> cell) list"
  closed_list :: "cell set"

text \<open>\<^verbatim>\<open>lrtastar.py\<close> adds two counters that \<open>update\<close> never touches.\<close>

record npc_lrta = npc +
  speed :: int
  frame_counter :: int

definition NPC_init10 :: "cell \<Rightarrow> cell \<Rightarrow> npc10" where
  "NPC_init10 start gl =
     \<lparr>position = start, previous_position = None, goal = gl, path = [start], visited = [],
      fsm = MOVING, cell_costs = Map.empty\<rparr>"

definition NPC_init_lrta :: "cell \<Rightarrow> cell \<Rightarrow> npc_lrta" where
  "NPC_init_lrta start gl =
     \<lparr>position = start, previous_position = None, goal = gl, path = [start], visited = [],
      fsm = MOVING, speed = 1, frame_counter = 0\<rparr>"

definition NPC_init11 :: "cell \<Rightarrow> cell \<Rightarrow> npc11" where
  "NPC_init11 start gl =
     \<lparr>position = start, previous_position = None, goal = gl, path = [start], visited = [],
      fsm = MOVING, cell_costs = Map.empty, open_list = [], closed_list = {}\<rparr>"

text \<open>Manhattan distance.\<close>

definition manhattan :: "cell \<Rightarrow> cell \<Rightarrow> int" where
  "manhattan a b = \<bar>fst a - fst b\<bar> + \<bar>snd a - snd b\<bar>"

text \<open>\<open>NPC.heuristic\<close> of \<^verbatim>\<open>game10.py\<close> and \<^verbatim>\<open>game11.py\<close>: Manhattan distance plus
  \<open>cell_costs.get(a, 0)\<close>.\<close>

definition heuristic10 :: "'a npc10_scheme \<Rightarrow> cell \<Rightarrow> cell \<Rightarrow> int" where
  "heuristic10 n a b =
     (let base_heuristic = manhattan a b;
          adjusted_cost = (case cell_costs n a of None \<Rightarrow> 0 | Some c \<Rightarrow> c)
      in base_heuristic + adjusted_cost)"

text \<open>\<open>NPC.get_neighbors\<close>: the loop over the four offsets. The bounds test
  short-circuits, so \<open>maze\<close> is read only for a cell inside
  \<open>GRID_WIDTH \<times> GRID_HEIGHT\<close>.\<close>

fun neighbors_loop :: "'a world_scheme \<Rightarrow> cell \<Rightarrow> cell list \<Rightarrow> cell list \<Rightarrow> py_error + cell list" where
  "neighbors_loop w pos [] neighbors = Inr neighbors"
| "neighbors_loop w pos (d # ds) neighbors =
     (let nx = fst pos + fst d; ny = snd pos + snd d in
      if 0 \<le> nx \<and> nx < GRID_WIDTH w \<and> 0 \<le> ny \<and> ny < GRID_HEIGHT w then
        (case maze_at (maze w) nx ny of
           Inl e \<Rightarrow> Inl e
         | Inr v \<Rightarrow> neighbors_loop w pos ds (if v = 0 then neighbors @ [(nx, ny)] else neighbors))
      else neighbors_loop w pos ds neighbors)"

definition get_neighbors :: "'a world_scheme \<Rightarrow> cell \<Rightarrow> py_error + cell list" where
  "get_neighbors w pos = neighbors_loop w pos offsets []"

text \<open>\<open>NPC.backtrack\<close>, the same text in the three incremental variants: with more than
  one cell on the path, pop the last one and stand on the new last one; otherwise print
  the stuck line and change nothing.\<close>

definition backtrack :: "'w world_scheme \<Rightarrow> 'a npc_scheme \<Rightarrow> 'w world_scheme \<times> 'a npc_scheme" where
  "backtrack w n =
     (if length (path n) > 1
      then (let popped = butlast (path n) in (w, n\<lparr>path := popped, position := last popped\<rparr>))
      else (print ''No path to backtrack. Stuck!'' w, n))"

text \<open>\<open>NPC.update\<close> of \<^verbatim>\<open>game10.py\<close>; \<open>barriers\<close> is the list \<open>barriers.barriers\<close>.\<close>

definition update10 ::
  "'w world_scheme \<Rightarrow> npc10 \<Rightarrow> cell list \<Rightarrow> py_error + ('w world_scheme \<times> npc10)" where
  "update10 w n barriers =
     (if fsm n \<noteq> MOVING then Inr (w, n)
      else
        let current = position n;
            n1 = n\<lparr>visited := visited n @ [current]\<rparr>
        in
        if current = goal n1 then Inr (w, n1\<lparr>fsm := GOAL_REACHED\<rparr>)
        else
          case get_neighbors w current of
            Inl e \<Rightarrow> Inl e
          | Inr all_neighbors \<Rightarrow>
              let neighbors = filter (\<lambda>c. c \<notin> set barriers) all_neighbors in
              if neighbors = [] then
                Inr (backtrack
                  (print (''No valid neighbors for '' @ show_cell current @ ''. Backtracking...'') w) n1)
              else
                case py_min (\<lambda>c. heuristic10 n1 c (goal n1)) neighbors of
                  Inl e \<Rightarrow> Inl e
                | Inr next_cell \<Rightarrow>
                    if next_cell \<in> set (visited n1) then
                      Inr (backtrack
                        (print (''Revisiting '' @ show_cell next_cell @ ''. Backtracking...'') w) n1)
                    else
                      Inr (w, n1\<lparr>previous_position := Some (position n1),
                                 position := next_cell,
                                 path := path n1 @ [next_cell],
                                 cell_costs := (cell_costs n1)(next_cell \<mapsto>
                                   (case cell_costs n1 next_cell of None \<Rightarrow> 0 | Some c \<Rightarrow> c) + 1)\<rparr>))"

text \<open>\<open>Barrier.check_collision\<close> (\<^verbatim>\<open>lrtastar.py\<close>, \<^verbatim>\<open>game10.py\<close>): the loop over
  \<open>self.barriers\<close>, returning at the first hit.\<close>

fun check_collision :: "cell list \<Rightarrow> cell \<Rightarrow> cell option \<Rightarrow> bool" where
  "check_collision [] npc_position npc_previous_position = False"
| "check_collision ((x, y) # rest) npc_position npc_previous_position =
     (if (x, y) = npc_position then True
      else
        let barrier_previous_position = (x, y - 1) in
        if npc_position = barrier_previous_position \<and> npc_previous_position = Some (x, y)
        then True
        else check_collision rest npc_position npc_previous_position)"

text \<open>\<open>heapq\<close>: a heap of \<open>(f, cell)\<close> tuples, which Python compares lexicographically.
  \<open>heappop\<close> returns the least tuple and tuples that compare equal are the same
  value, so the heap is modelled by the bag of its items, kept in a list; the array layout
  of \<open>heapq\<close> is not observable through \<open>heappush\<close> and \<open>heappop\<close>.\<close>

type_synonym heap = "(int \<times> cell) list"

definition heappush :: "heap \<Rightarrow> int \<times> cell \<Rightarrow> heap" where
  "heappush h item = item # h"

definition heappop :: "heap \<Rightarrow> py_error + ((int \<times> cell) \<times> heap)" where
  "heappop h = (if h = [] then Inl IndexError else Inr (Min (set h), remove1 (Min (set h)) h))"

section \<open>The incremental planner of \<^verbatim>\<open>lrtastar.py\<close>\<close>

text \<open>\<open>NPC.heuristic\<close> of \<^verbatim>\<open>lrtastar.py\<close> is the plain Manhattan distance.
  \<open>NPC.update_heuristic\<close> stores \<open>min(current_h, next_h)\<close> in
  \<open>maze[current[1]][current[0]]\<close>.\<close>

definition update_heuristic ::
  "'w world_scheme \<Rightarrow> 'a npc_scheme \<Rightarrow> cell \<Rightarrow> cell \<Rightarrow> py_error + 'w world_scheme" where
  "update_heuristic w n current next_cell =
     (let current_h = manhattan current (goal n);
          next_h = manhattan next_cell (goal n)
      in case maze_set (maze w) (fst current) (snd current) (min current_h next_h) of
           Inl e \<Rightarrow> Inl e
         | Inr mz \<Rightarrow> Inr (w\<lparr>maze := mz\<rparr>))"

text \<open>\<open>NPC.update\<close> of \<^verbatim>\<open>lrtastar.py\<close>. The parameter \<open>barriers\<close> is not read.\<close>

definition update_lrta ::
  "'w world_scheme \<Rightarrow> npc_lrta \<Rightarrow> cell list \<Rightarrow> py_error + ('w world_scheme \<times> npc_lrta)" where
  "update_lrta w n barriers =
     (if fsm n \<noteq> MOVING then Inr (w, n)
      else
        let current = position n;
            n1 = n\<lparr>visited := visited n @ [current]\<rparr>
        in
        if current = goal n1 then Inr (w, n1\<lparr>fsm := GOAL_REACHED\<rparr>)
        else
          case get_neighbors w current of
            Inl e \<Rightarrow> Inl e
          | Inr neighbors \<Rightarrow>
              if neighbors = [] then
                Inr (backtrack
                  (print (''No valid neighbors for '' @ show_cell current @ ''. Backtracking...'') w) n1)
              else
                case py_min (\<lambda>c. manhattan c (goal n1)) neighbors of
                  Inl e \<Rightarrow> Inl e
                | Inr next_cell \<Rightarrow>
                    (case update_heuristic w n1 current next_cell of
                       Inl e \<Rightarrow> Inl e
                     | Inr w1 \<Rightarrow>
                         if next_cell \<in> set (visited n1) then
                           Inr (backtrack
                             (print (''Revisiting '' @ show_cell next_cell @ ''. Backtracking...'') w1) n1)
                         else
                           Inr (w1, n1\<lparr>previous_position := Some (position n1),
                                       position := next_cell,
                                       path := path n1 @ [next_cell]\<rparr>)))"

section \<open>The planner of \<^verbatim>\<open>game11.py\<close>\<close>

text \<open>The loop \<open>for neighbor in neighbors\<close> of \<open>NPC.update\<close> in \<^verbatim>\<open>game11.py\<close>: every
  neighbour outside the closed set is pushed on the open list, appended to the path and
  made the agent's position.\<close>

fun push_neighbors :: "npc11 \<Rightarrow> cell list \<Rightarrow> npc11" where
  "push_neighbors n [] = n"
| "push_neighbors n (neighbor # rest) =
     (if neighbor \<in> closed_list n then push_neighbors n rest
      else
        let g_cost = (case cell_costs n neighbor of None \<Rightarrow> 0 | Some c \<Rightarrow> c);
            h_cost = heuristic10 n neighbor (goal n);
            f_cost = g_cost + h_cost
        in push_neighbors
             (n\<lparr>open_list := heappush (open_list n) (f_cost, neighbor),
                path := path n @ [neighbor],
                position := neighbor,
                cell_costs := (cell_costs n)(neighbor \<mapsto>
                   (case cell_costs n neighbor of None \<Rightarrow> 0 | Some c \<Rightarrow> c) + 1)\<rparr>)
             rest)"

definition update11 :: "'w world_scheme \<Rightarrow> npc11 \<Rightarrow> py_error + ('w world_scheme \<times> npc11)" where
  "update11 w n =
     (if fsm n \<noteq> MOVING then Inr (w, n)
      else
        let current = position n;
            n1 = n\<lparr>visited := visited n @ [current]\<rparr>
        in
        if current = goal n1 then Inr (w, n1\<lparr>fsm := GOAL_REACHED\<rparr>)
        else
          let n2 = (if open_list n1 = [] then n1\<lparr>open_list := heappush (open_list n1) (0, current)\<rparr>
                    else n1)
          in
          case (if open_list n2 \<noteq> [] then
                  (case heappop (open_list n2) of
                     Inl e \<Rightarrow> Inl e
                   | Inr (item, rest) \<Rightarrow>
                       let popped = snd item;
                           n3 = n2\<lparr>open_list := rest, closed_list := insert popped (closed_list n2)\<rparr>
                       in (case get_neighbors w popped of
                             Inl e \<Rightarrow> Inl e
                           | Inr neighbors \<Rightarrow> Inr (push_neighbors n3 neighbors)))
                else Inr n2) of
            Inl e \<Rightarrow> Inl e
          | Inr n4 \<Rightarrow> if open_list n4 = [] then Inr (backtrack w n4) else Inr (w, n4))"

section \<open>The static search of \<^verbatim>\<open>Game.py\<close>\<close>

text \<open>
  \<open>astar(maze, start, goal)\<close>, the same text in \<^verbatim>\<open>Game.py\<close>, \<^verbatim>\<open>Game2.py\<close>, \<^verbatim>\<open>Game4.py\<close>
  and \<^verbatim>\<open>Game5.py\<close> (which returns the length of the path as well). The function reads
  the module global \<open>GRID_SIZE\<close>, which bounds both coordinates of a neighbour, whatever grid
  is passed as \<open>maze\<close>. The global is the first parameter of every function here; \<open>mz\<close> is
  the argument \<open>maze\<close>.
\<close>

text \<open>The maze of \<^verbatim>\<open>Game.py\<close> and the value its line 34, \<open>GRID_SIZE = len(maze)\<close>, gives the
  global before \<open>astar\<close> is ever called: 10, as in the other three modules.\<close>

definition Game_maze :: "int list list" where
  "Game_maze =
     [[0, 0, 0, 1, 0, 0, 0, 0, 0, 0],
      [1, 1, 0, 1, 0, 1, 1, 1, 1, 0],
      [0, 0, 0, 1, 0, 1, 0, 0, 0, 0],
      [0, 1, 1, 1, 0, 1, 0, 1, 1, 0],
      [0, 0, 0, 0, 0, 1, 0, 0, 0, 0],
      [0, 1, 1, 1, 1, 1, 1, 1, 1, 0],
      [0, 0, 0, 1, 0, 0, 0, 0, 0, 0],
      [1, 1, 0, 1, 0, 1, 1, 1, 1, 0],
      [0, 0, 0, 0, 0, 1, 0, 0, 0, 0],
      [0, 1, 1, 1, 1, 1, 0, 1, 1, 0]]"

definition Game_GRID_SIZE :: int where
  "Game_GRID_SIZE = int (length Game_maze)"

text \<open>The local variables of \<open>astar\<close>. The scores in \<open>g_score\<close> start at 0 and grow by
  one, so they are natural numbers.\<close>

record astar_state =
  open_set :: heap
  came_from :: "cell \<rightharpoonup> cell"
  g_score :: "cell \<rightharpoonup> nat"
  f_score :: "cell \<rightharpoonup> int"

text \<open>The body of \<open>for dx, dy in [...]\<close> for one offset \<open>d\<close>. \<open>g_score[current]\<close> is
  read only when the neighbour is inside the grid and open; it raises \<open>KeyError\<close> when
  the cell has no score.\<close>

definition relax :: "int \<Rightarrow> int list list \<Rightarrow> cell \<Rightarrow> cell \<Rightarrow> cell \<Rightarrow> astar_state \<Rightarrow> py_error + astar_state" where
  "relax GRID_SIZE mz gl current d st =
     (let neighbor = (fst current + fst d, snd current + snd d) in
      if 0 \<le> fst neighbor \<and> fst neighbor < GRID_SIZE
         \<and> 0 \<le> snd neighbor \<and> snd neighbor < GRID_SIZE then
        (case maze_at mz (fst neighbor) (snd neighbor) of
           Inl e \<Rightarrow> Inl e
         | Inr v \<Rightarrow>
             if v = 0 then
               (case g_score st current of
                  None \<Rightarrow> Inl KeyError
                | Some g_current \<Rightarrow>
                    let tentative_g_score = g_current + 1 in
                    if (case g_score st neighbor of None \<Rightarrow> True
                        | Some g_neighbor \<Rightarrow> tentative_g_score < g_neighbor)
                    then
                      let f = int tentative_g_score + manhattan neighbor gl in
                      Inr (st\<lparr>came_from := (came_from st)(neighbor \<mapsto> current),
                              g_score := (g_score st)(neighbor \<mapsto> tentative_g_score),
                              f_score := (f_score st)(neighbor \<mapsto> f),
                              open_set := heappush (open_set st) (f, neighbor)\<rparr>)
                    else Inr st)
             else Inr st)
      else Inr st)"

fun expand :: "int \<Rightarrow> int list list \<Rightarrow> cell \<Rightarrow> cell \<Rightarrow> cell list \<Rightarrow> astar_state \<Rightarrow> py_error + astar_state" where
  "expand GRID_SIZE mz gl current [] st = Inr st"
| "expand GRID_SIZE mz gl current (d # ds) st =
     (case relax GRID_SIZE mz gl current d st of
        Inl e \<Rightarrow> Inl e
      | Inr st' \<Rightarrow> expand GRID_SIZE mz gl current ds st')"

text \<open>The loop \<open>while open_set\<close>. Its result is \<open>None\<close> when the open set runs empty
  (the function then returns \<open>[]\<close>), and the state in which the goal was popped otherwise.\<close>

function astar_loop :: "int \<Rightarrow> int list list \<Rightarrow> cell \<Rightarrow> astar_state \<Rightarrow> py_error + astar_state option" where
  "astar_loop GRID_SIZE mz gl st =
     (if open_set st = [] then Inr None
      else
        case heappop (open_set st) of
          Inl e \<Rightarrow> Inl e
        | Inr (item, rest) \<Rightarrow>
            let current = snd item; st1 = st\<lparr>open_set := rest\<rparr> in
            if current = gl then Inr (Some st1)
            else
              (case expand GRID_SIZE mz gl current offsets st1 of
                 Inl e \<Rightarrow> Inl e
               | Inr st2 \<Rightarrow> astar_loop GRID_SIZE mz gl st2))"
  by pat_completeness auto

text \<open>The loop \<open>while current in came_from\<close>, which collects the cells from the goal
  back; it runs forever on a cyclic \<open>came_from\<close>, which is the value \<open>None\<close> here.\<close>

partial_function (option) reconstruct_path :: "(cell \<rightharpoonup> cell) \<Rightarrow> cell \<Rightarrow> cell list \<Rightarrow> cell list option" where
  "reconstruct_path cf current pth =
     (case cf current of
        None \<Rightarrow> Some pth
      | Some previous \<Rightarrow> reconstruct_path cf previous (pth @ [current]))"

declare reconstruct_path.simps [code]

text \<open>\<open>astar\<close>: the outer \<open>option\<close> is \<open>None\<close> when the call does not return, the sum
  tells an exception from a returned path.\<close>

definition astar_init :: "cell \<Rightarrow> cell \<Rightarrow> astar_state" where
  "astar_init start gl =
     \<lparr>open_set = heappush [] (0, start), came_from = Map.empty,
      g_score = [start \<mapsto> 0], f_score = [start \<mapsto> manhattan start gl]\<rparr>"

definition astar :: "int \<Rightarrow> int list list \<Rightarrow> cell \<Rightarrow> cell \<Rightarrow> (py_error + cell list) option" where
  "astar GRID_SIZE mz start gl =
     (case astar_loop GRID_SIZE mz gl (astar_init start gl) of
        Inl e \<Rightarrow> Some (Inl e)
      | Inr None \<Rightarrow> Some (Inr [])
      | Inr (Some st) \<Rightarrow>
          (case reconstruct_path (came_from st) gl [] of
             None \<Rightarrow> None
           | Some pth \<Rightarrow> Some (Inr (rev (pth @ [start])))))"

subsection \<open>Paths on the grid\<close>

text \<open>A cell the search may enter (inside the bound \<open>GRID_SIZE\<close>, with \<open>maze[y][x] == 0\<close>),
  one step of the search, and a sequence of such steps.\<close>

definition free_cell :: "int \<Rightarrow> int list list \<Rightarrow> cell \<Rightarrow> bool" where
  "free_cell GRID_SIZE mz c \<longleftrightarrow>
     0 \<le> fst c \<and> fst c < GRID_SIZE \<and> 0 \<le> snd c \<and> snd c < GRID_SIZE
     \<and> maze_at mz (fst c) (snd c) = Inr 0"

definition adjacent :: "int \<Rightarrow> int list list \<Rightarrow> cell \<Rightarrow> cell \<Rightarrow> bool" where
  "adjacent GRID_SIZE mz u v \<longleftrightarrow> v \<in> set (around u) \<and> free_cell GRID_SIZE mz v"

fun walk :: "int \<Rightarrow> int list list \<Rightarrow> cell list \<Rightarrow> bool" where
  "walk GRID_SIZE mz [] = False"
| "walk GRID_SIZE mz [c] = True"
| "walk GRID_SIZE mz (u # v # rest) =
     (adjacent GRID_SIZE mz u v \<and> walk GRID_SIZE mz (v # rest))"

definition path_between :: "int \<Rightarrow> int list list \<Rightarrow> cell \<Rightarrow> cell \<Rightarrow> cell list \<Rightarrow> bool" where
  "path_between GRID_SIZE mz start gl p \<longleftrightarrow>
     walk GRID_SIZE mz p \<and> hd p = start \<and> last p = gl"

text \<open>A grid of \<open>GRID_SIZE\<close> rows of \<open>GRID_SIZE\<close> cells, as the mazes of the modules are.\<close>

definition square_grid :: "int \<Rightarrow> int list list \<Rightarrow> bool" where
  "square_grid GRID_SIZE mz \<longleftrightarrow>
     int (length mz) = GRID_SIZE \<and> (\<forall>row \<in> set mz. int (length row) = GRID_SIZE)"

inductive steps :: "int \<Rightarrow> int list list \<Rightarrow> cell \<Rightarrow> nat \<Rightarrow> cell \<Rightarrow> bool"
  for GRID_SIZE mz start where
  steps_start: "steps GRID_SIZE mz start 0 start"
| steps_next: "steps GRID_SIZE mz start k u \<Longrightarrow> adjacent GRID_SIZE mz u v \<Longrightarrow>
     steps GRID_SIZE mz start (Suc k) v"

text \<open>The 4-connected graph of the grid itself, which does not know \<open>GRID_SIZE\<close>: an open
  cell is a cell of the array that holds 0; a path enters open cells only, one step at a
  time; the distance is the least number of steps of a path.\<close>

definition grid_open :: "int list list \<Rightarrow> cell \<Rightarrow> bool" where
  "grid_open mz c \<longleftrightarrow> 0 \<le> fst c \<and> 0 \<le> snd c \<and> maze_at mz (fst c) (snd c) = Inr 0"

fun grid_walk :: "int list list \<Rightarrow> cell list \<Rightarrow> bool" where
  "grid_walk mz [] = False"
| "grid_walk mz [c] = True"
| "grid_walk mz (u # v # rest) =
     (v \<in> set (around u) \<and> grid_open mz v \<and> grid_walk mz (v # rest))"

definition grid_path :: "int list list \<Rightarrow> cell \<Rightarrow> cell \<Rightarrow> cell list \<Rightarrow> bool" where
  "grid_path mz start gl p \<longleftrightarrow> grid_walk mz p \<and> hd p = start \<and> last p = gl"

definition shortest_distance :: "int list list \<Rightarrow> cell \<Rightarrow> cell \<Rightarrow> nat" where
  "shortest_distance mz start gl = (LEAST k. \<exists>q. grid_path mz start gl q \<and> length q = Suc k)"

text \<open>Grids of 10 rows of 10 cells: one without walls, one whose second column is a wall.\<close>

definition grid10 :: "int list list" where
  "grid10 = replicate 10 (replicate 10 0)"

definition wall10 :: "int list list" where
  "wall10 = replicate 10 [0, 1, 0, 0, 0, 0, 0, 0, 0, 0]"

text \<open>Grids of 3 rows of 3 cells: one without walls, one whose second column is a wall.\<close>

definition open3 :: "int list list" where
  "open3 = [[0, 0, 0], [0, 0, 0], [0, 0, 0]]"

definition wall3 :: "int list list" where
  "wall3 = [[0, 1, 0], [0, 1, 0], [0, 1, 0]]"

text \<open>Two grids that are not square: one row of three open cells, and one column of three
  cells with a wall in the middle.\<close>

definition wide_grid :: "int list list" where
  "wide_grid = [[0, 0, 0]]"

definition tall_grid :: "int list list" where
  "tall_grid = [[0], [1], [0]]"

text \<open>The path that \<open>astar\<close> returns in \<^verbatim>\<open>Game.py\<close>, where \<open>main\<close> starts the agent on (0,0)
  with the goal (9,9).\<close>

definition Game_route :: "cell list" where
  "Game_route =
     [(0, 0), (1, 0), (2, 0), (2, 1), (2, 2), (1, 2), (0, 2), (0, 3), (0, 4), (0, 5), (0, 6),
      (1, 6), (2, 6), (2, 7), (2, 8), (3, 8), (4, 8), (4, 7), (4, 6), (5, 6), (6, 6), (7, 6),
      (8, 6), (9, 6), (9, 7), (9, 8), (9, 9)]"

subsection \<open>Measures and invariants of the search loop\<close>

text \<open>The termination measure: the cells of the grid without a score, and the sum of the
  scores.\<close>

definition grid_cells :: "int \<Rightarrow> cell set" where
  "grid_cells GRID_SIZE = {0..<GRID_SIZE} \<times> {0..<GRID_SIZE}"

definition unseen :: "int \<Rightarrow> astar_state \<Rightarrow> nat" where
  "unseen GRID_SIZE st = card {c \<in> grid_cells GRID_SIZE. g_score st c = None}"

definition g_total :: "int \<Rightarrow> astar_state \<Rightarrow> nat" where
  "g_total GRID_SIZE st =
     (\<Sum>c \<in> grid_cells GRID_SIZE. case g_score st c of None \<Rightarrow> 0 | Some v \<Rightarrow> v)"

definition progress :: "int \<Rightarrow> astar_state \<Rightarrow> nat \<times> nat" where
  "progress GRID_SIZE st = (unseen GRID_SIZE st, g_total GRID_SIZE st)"

text \<open>The invariants: scores are lengths of walks from the start; a parent is one step
  before its child and has a smaller score; every scored cell but the start has a parent;
  the items of the open set have scores, and keys that are not below score plus heuristic;
  a cell whose score is optimal is in the open set or has been expanded, but for the
  neighbours in \<open>E\<close> of the cell in expansion.\<close>

definition g_sound :: "int \<Rightarrow> int list list \<Rightarrow> cell \<Rightarrow> astar_state \<Rightarrow> bool" where
  "g_sound GRID_SIZE mz start st \<longleftrightarrow>
     g_score st start = Some 0
     \<and> (\<forall>n v. g_score st n = Some v \<longrightarrow> steps GRID_SIZE mz start v n)"

definition parents_ok :: "int \<Rightarrow> int list list \<Rightarrow> astar_state \<Rightarrow> bool" where
  "parents_ok GRID_SIZE mz st \<longleftrightarrow>
     (\<forall>n p. came_from st n = Some p \<longrightarrow>
        adjacent GRID_SIZE mz p n
        \<and> (\<exists>gp gn. g_score st p = Some gp \<and> g_score st n = Some gn \<and> gp + 1 \<le> gn))"

definition rooted :: "cell \<Rightarrow> astar_state \<Rightarrow> bool" where
  "rooted start st \<longleftrightarrow> (\<forall>n v. g_score st n = Some v \<longrightarrow> n = start \<or> came_from st n \<noteq> None)"

definition open_inv :: "cell \<Rightarrow> cell \<Rightarrow> astar_state \<Rightarrow> bool" where
  "open_inv start gl st \<longleftrightarrow>
     (\<forall>f n. (f, n) \<in> set (open_set st) \<longrightarrow>
        (\<exists>v. g_score st n = Some v \<and> (n = start \<or> int v + manhattan n gl \<le> f)))
     \<and> (g_score st gl \<noteq> None \<longrightarrow> (\<exists>f. (f, gl) \<in> set (open_set st)))"

definition opt_inv :: "int \<Rightarrow> int list list \<Rightarrow> cell \<Rightarrow> cell \<Rightarrow> cell \<Rightarrow> cell set \<Rightarrow> astar_state \<Rightarrow> bool" where
  "opt_inv GRID_SIZE mz start gl cur E st \<longleftrightarrow>
     (\<forall>u v. g_score st u = Some v
            \<and> (\<forall>k. steps GRID_SIZE mz start k u \<longrightarrow> v \<le> k) \<longrightarrow>
        (\<exists>f. (f, u) \<in> set (open_set st) \<and> f \<le> int v + manhattan u gl)
        \<or> (\<forall>w. adjacent GRID_SIZE mz u w \<longrightarrow>
              (u = cur \<and> w \<in> E) \<or> (\<exists>gw. g_score st w = Some gw \<and> gw \<le> v + 1)))"

definition improve :: "cell \<Rightarrow> cell \<Rightarrow> cell \<Rightarrow> nat \<Rightarrow> astar_state \<Rightarrow> astar_state" where
  "improve gl cur n t st =
     st\<lparr>came_from := (came_from st)(n \<mapsto> cur),
        g_score := (g_score st)(n \<mapsto> t),
        f_score := (f_score st)(n \<mapsto> int t + manhattan n gl),
        open_set := heappush (open_set st) (int t + manhattan n gl, n)\<rparr>"

definition search_inv :: "int \<Rightarrow> int list list \<Rightarrow> cell \<Rightarrow> cell \<Rightarrow> cell \<Rightarrow> cell set \<Rightarrow> astar_state \<Rightarrow> bool" where
  "search_inv GRID_SIZE mz start gl cur E st \<longleftrightarrow>
     g_sound GRID_SIZE mz start st \<and> parents_ok GRID_SIZE mz st \<and> rooted start st
     \<and> open_inv start gl st \<and> opt_inv GRID_SIZE mz start gl cur E st"

section \<open>Runs and the concrete module globals\<close>

text \<open>The main loops call \<open>npc.update\<close> once per tick; a run is the list of the barrier
  lists seen at the successive ticks.\<close>

fun ticks10 ::
  "'w world_scheme \<Rightarrow> npc10 \<Rightarrow> cell list list \<Rightarrow> py_error + ('w world_scheme \<times> npc10)" where
  "ticks10 w n [] = Inr (w, n)"
| "ticks10 w n (barriers # rest) =
     (case update10 w n barriers of Inl e \<Rightarrow> Inl e | Inr (w', n') \<Rightarrow> ticks10 w' n' rest)"

fun ticks_lrta ::
  "'w world_scheme \<Rightarrow> npc_lrta \<Rightarrow> cell list list \<Rightarrow> py_error + ('w world_scheme \<times> npc_lrta)" where
  "ticks_lrta w n [] = Inr (w, n)"
| "ticks_lrta w n (barriers # rest) =
     (case update_lrta w n barriers of Inl e \<Rightarrow> Inl e | Inr (w', n') \<Rightarrow> ticks_lrta w' n' rest)"

text \<open>The globals of \<^verbatim>\<open>lrtastar.py\<close> at start-up: a road of 3 lanes and 20 rows, all
  cells open.\<close>

definition lrtastar_world :: world where
  "lrtastar_world =
     \<lparr>GRID_WIDTH = 3, GRID_HEIGHT = 20, maze = replicate 20 (replicate 3 0), stdout = []\<rparr>"

text \<open>The globals of \<^verbatim>\<open>game11.py\<close> for a 20 by 20 maze \<open>mz\<close> (the source draws its walls
  at random and then opens the two corners).\<close>

definition game11_world :: "int list list \<Rightarrow> world" where
  "game11_world mz = \<lparr>GRID_WIDTH = 20, GRID_HEIGHT = 20, maze = mz, stdout = []\<rparr>"

text \<open>A cell that \<open>get_neighbors\<close> accepts: inside the grid, with \<open>maze[y][x] == 0\<close>.\<close>

definition open_cell :: "'w world_scheme \<Rightarrow> cell \<Rightarrow> bool" where
  "open_cell w c \<longleftrightarrow>
     0 \<le> fst c \<and> fst c < GRID_WIDTH w \<and> 0 \<le> snd c \<and> snd c < GRID_HEIGHT w
     \<and> maze_at (maze w) (fst c) (snd c) = Inr 0"


text \<open>The world and agent in which the planner of \<^verbatim>\<open>game10.py\<close> has nowhere to go: a grid
  of one row, the agent on its only open cell.\<close>

definition pocket_world :: world where
  "pocket_world = \<lparr>GRID_WIDTH = 2, GRID_HEIGHT = 1, maze = [[0, 1]], stdout = []\<rparr>"

text \<open>A grid of three rows and three columns without walls.\<close>

definition open3_world :: world where
  "open3_world =
     \<lparr>GRID_WIDTH = 3, GRID_HEIGHT = 3, maze = [[0, 0, 0], [0, 0, 0], [0, 0, 0]], stdout = []\<rparr>"

text \<open>The agent of \<^verbatim>\<open>game10.py\<close> on that grid, started on (1,2) with goal (1,0), after one
  tick with a barrier on (1,1), and after a second tick without barriers.\<close>

definition open3_agent1 :: npc10 where
  "open3_agent1 = (NPC_init10 (1, 2) (1, 0))\<lparr>visited := [(1, 2)], previous_position := Some (1, 2),
   position := (0, 2), path := [(1, 2), (0, 2)], cell_costs := [(0, 2) \<mapsto> 1]\<rparr>"

definition open3_agent2 :: npc10 where
  "open3_agent2 = open3_agent1\<lparr>visited := [(1, 2), (0, 2)], position := (1, 2), path := [(1, 2)]\<rparr>"

text \<open>The agent of \<^verbatim>\<open>lrtastar.py\<close>, started on (1,19) with goal (1,0), after one tick.\<close>

definition lrtastar_agent1 :: npc_lrta where
  "lrtastar_agent1 = (NPC_init_lrta (1, 19) (1, 0))\<lparr>visited := [(1, 19)], previous_position := Some (1, 19),
   position := (1, 18), path := [(1, 19), (1, 18)]\<rparr>"

text \<open>A grid of \<open>GRID_HEIGHT\<close> rows of \<open>GRID_WIDTH\<close> cells, the list of its open cells, and
  what a tick printed. The stuck condition is the line that \<open>backtrack\<close> prints when the
  path has a single cell.\<close>

definition grid_ok :: "'w world_scheme \<Rightarrow> bool" where
  "grid_ok w \<longleftrightarrow>
     int (length (maze w)) = GRID_HEIGHT w
     \<and> (\<forall>row \<in> set (maze w). int (length row) = GRID_WIDTH w)"

definition open_cells :: "'w world_scheme \<Rightarrow> cell list" where
  "open_cells w =
     filter (open_cell w) (List.product [0..GRID_WIDTH w - 1] [0..GRID_HEIGHT w - 1])"

definition stuck_line :: string where
  "stuck_line = ''No path to backtrack. Stuck!''"

definition printed :: "'w world_scheme \<Rightarrow> 'w world_scheme \<Rightarrow> string list" where
  "printed w w' = drop (length (stdout w)) (stdout w')"

definition reports_stuck :: "'w world_scheme \<Rightarrow> 'w world_scheme \<Rightarrow> bool" where
  "reports_stuck w w' \<longleftrightarrow> stuck_line \<in> set (printed w w')"

definition seen :: "'a npc_scheme \<Rightarrow> cell set" where
  "seen n = set (visited n) \<union> {position n}"

definition potential :: "'a npc_scheme \<Rightarrow> int" where
  "potential n = 2 * int (card (seen n)) - int (length (path n))"

definition planner_inv :: "'w world_scheme \<Rightarrow> 'a npc_scheme \<Rightarrow> bool" where
  "planner_inv w n \<longleftrightarrow>
     fsm n = MOVING \<and> path n \<noteq> [] \<and> last (path n) = position n
     \<and> set (path n) \<subseteq> seen n \<and> seen n \<subseteq> set (open_cells w)"

text \<open>The cells the agent has stood on, the quantity that grows with every tick that
  neither ends the episode nor reports stuck, and the invariants of the agent between
  ticks: in \<^verbatim>\<open>game10.py\<close> the grid is fixed; in \<^verbatim>\<open>lrtastar.py\<close> the grid \<open>w\<close> differs from the
  start-up grid \<open>w0\<close> only on cells the agent has stood on.\<close>

definition trail_inv :: "'a npc_scheme \<Rightarrow> bool" where
  "trail_inv n \<longleftrightarrow>
     fsm n = MOVING \<and> path n \<noteq> [] \<and> last (path n) = position n \<and> set (path n) \<subseteq> seen n"

definition lrta_inv :: "'w world_scheme \<Rightarrow> 'w world_scheme \<Rightarrow> 'a npc_scheme \<Rightarrow> bool" where
  "lrta_inv w0 w n \<longleftrightarrow>
     trail_inv n \<and> seen n \<subseteq> set (open_cells w0) \<and> grid_ok w
     \<and> GRID_WIDTH w = GRID_WIDTH w0 \<and> GRID_HEIGHT w = GRID_HEIGHT w0
     \<and> (\<forall>c. c \<notin> seen n \<longrightarrow> open_cell w c = open_cell w0 c)"

section \<open>Properties of the collision check\<close>

lemma check_collision_iff:
  "check_collision bs p pp \<longleftrightarrow>
     (\<exists>b \<in> set bs. b = p \<or> (p = (fst b, snd b - 1) \<and> pp = Some b))"
  by (induction bs p pp rule: check_collision.induct) (auto simp: Let_def)

text \<open>
  Claim C4, as stated, fails. The agent moves from (5,5) to (5,6) while a barrier moves from
  (5,6) to (5,5); \<open>check_collision\<close> is called with agent position (5,6), previous position
  (5,5) and the barrier now at (5,5). The direct test compares (5,5) with (5,6); the crossing
  test takes (5,4) as the barrier's previous cell, which is not the agent's position. The
  call returns \<open>False\<close>.
\<close>

theorem check_collision_scenario_C_false:
  "\<not> check_collision [(5, 5)] (5, 6) (Some (5, 5))"
  by simp

text \<open>
  Claim C4, amended. Barriers only move down (\<open>y + 1\<close>), and the crossing rule is written
  for that direction: for a barrier now at \<open>(x, y)\<close>, an agent that stood on \<open>(x, y)\<close> and
  now stands on \<open>(x, y - 1)\<close> has swapped places with it. The check then returns \<open>True\<close>
  although the two final positions differ. The instance: the agent moves from (5,6) to (5,5)
  while the barrier moves from (5,5) to (5,6).
\<close>

theorem check_collision_crossing:
  "(x, y) \<in> set barriers \<Longrightarrow>
     (x, y) \<noteq> (x, y - 1) \<and> check_collision barriers (x, y - 1) (Some (x, y))"
  unfolding check_collision_iff by (rule conjI, simp, rule bexI[of _ "(x, y)"]) auto

theorem check_collision_crossing_witness:
  "((5::int), (6::int)) \<in> set [(5, 6)] \<and> ((5::int), (6::int)) \<noteq> (5, 5)
     \<and> check_collision [(5, 6)] (5, 5) (Some (5, 6))"
  using check_collision_crossing [of 5 6 "[(5, 6)]"] by simp

section \<open>Properties of the incremental planners\<close>

subsection \<open>Auxiliary facts\<close>

lemma neighbors_loop_filter:
  "neighbors_loop w pos ds acc = Inr nbs \<Longrightarrow>
     nbs = acc @ filter (open_cell w) (map (\<lambda>d. (fst pos + fst d, snd pos + snd d)) ds)"
proof (induction ds arbitrary: acc)
  case Nil
  then show ?case by simp
next
  case (Cons d ds)
  let ?c = "(fst pos + fst d, snd pos + snd d)"
  from Cons.prems Cons.IH[of "acc @ [?c]"] Cons.IH[of acc] show ?case
    by (auto simp: Let_def open_cell_def split: if_splits sum.splits)
qed

lemma get_neighbors_filter:
  "get_neighbors w pos = Inr nbs \<Longrightarrow> nbs = filter (open_cell w) (around pos)"
  unfolding get_neighbors_def around_def by (drule neighbors_loop_filter) simp

lemma min_key_from_first:
  assumes "k < length ps"
    and "\<forall>j < length ps. key (ps ! k) \<le> key (ps ! j)"
    and "\<forall>j < k. key (ps ! k) < key (ps ! j)"
  shows "\<exists>i < length (ps @ xs). min_key_from key (ps ! k) xs = (ps @ xs) ! i
           \<and> (\<forall>j < length (ps @ xs). key ((ps @ xs) ! i) \<le> key ((ps @ xs) ! j))
           \<and> (\<forall>j < i. key ((ps @ xs) ! i) < key ((ps @ xs) ! j))"
  using assms
proof (induction xs arbitrary: ps k)
  case Nil
  then show ?case by auto
next
  case (Cons x xs)
  show ?case
  proof (cases "key x < key (ps ! k)")
    case True
    have a: "length ps < length (ps @ [x])" by simp
    have b: "\<forall>j < length (ps @ [x]). key ((ps @ [x]) ! length ps) \<le> key ((ps @ [x]) ! j)"
      using True Cons.prems(2) by (auto simp: nth_append less_Suc_eq intro: order_trans less_imp_le)
    have c: "\<forall>j < length ps. key ((ps @ [x]) ! length ps) < key ((ps @ [x]) ! j)"
      using True Cons.prems(2) by (auto simp: nth_append intro: less_le_trans)
    from Cons.IH[OF a b c] True show ?thesis by (simp add: nth_append)
  next
    case False
    have a: "k < length (ps @ [x])" using Cons.prems(1) by simp
    have b: "\<forall>j < length (ps @ [x]). key ((ps @ [x]) ! k) \<le> key ((ps @ [x]) ! j)"
      using False Cons.prems by (auto simp: nth_append less_Suc_eq)
    have c: "\<forall>j < k. key ((ps @ [x]) ! k) < key ((ps @ [x]) ! j)"
      using Cons.prems by (auto simp: nth_append)
    from Cons.IH[OF a b c] False Cons.prems(1) show ?thesis by (simp add: nth_append)
  qed
qed

lemma py_min_first:
  assumes "xs \<noteq> []"
  shows "\<exists>i < length xs. py_min key xs = Inr (xs ! i)
           \<and> (\<forall>j < length xs. key (xs ! i) \<le> key (xs ! j))
           \<and> (\<forall>j < i. key (xs ! i) < key (xs ! j))"
proof -
  from assms obtain x rest where xs: "xs = x # rest" by (cases xs) auto
  have "\<exists>i < length ([x] @ rest). min_key_from key ([x] ! 0) rest = ([x] @ rest) ! i
           \<and> (\<forall>j < length ([x] @ rest). key (([x] @ rest) ! i) \<le> key (([x] @ rest) ! j))
           \<and> (\<forall>j < i. key (([x] @ rest) ! i) < key (([x] @ rest) ! j))"
    by (rule min_key_from_first) auto
  then show ?thesis by (simp add: xs py_min_def)
qed

lemma show_cell_origin: "show_cell (0, 0) = ''(0, 0)''"
  by (simp add: show_cell_def show_int_def show_nat.simps digit_char_def)

lemma pocket_neighbors: "get_neighbors pocket_world (0, 0) = Inr []"
  by (simp add: get_neighbors_def offsets_def pocket_world_def maze_at_def py_index_def)

lemma update10_globals:
  "update10 w n barriers = Inr (w', n') \<Longrightarrow>
     maze w' = maze w \<and> GRID_WIDTH w' = GRID_WIDTH w \<and> GRID_HEIGHT w' = GRID_HEIGHT w"
  by (auto simp: update10_def Let_def backtrack_def print_def split: if_splits sum.splits)

subsection \<open>The grid under the agent's step\<close>

lemma lrtastar_neighbors:
  "get_neighbors lrtastar_world (1, 19) = Inr [(0, 19), (2, 19), (1, 18)]"
  by (simp add: get_neighbors_def offsets_def lrtastar_world_def maze_at_def py_index_def)

text \<open>
  Claim C5 fails in \<^verbatim>\<open>lrtastar.py\<close>. There \<open>NPC.update\<close> calls \<open>update_heuristic\<close>, which
  assigns \<open>min(current_h, next_h)\<close> to the \<open>maze\<close> entry of the agent's cell. On the
  start-up grid, with the agent on (1,19) and the goal (1,0), the first tick changes
  \<open>maze[19][1]\<close> from 0 to 18 and moves the agent to (1,18). (The step of \<^verbatim>\<open>game10.py\<close>
  leaves the grid alone: \<open>update10_globals\<close>.)
\<close>

theorem update_lrta_writes_maze:
  "(case update_lrta lrtastar_world (NPC_init_lrta (1, 19) (1, 0)) [] of
      Inl e \<Rightarrow> None | Inr (w', n') \<Rightarrow> Some (maze_at (maze w') 1 19, position n'))
   = Some (Inr 18, (1, 18))
   \<and> maze_at (maze lrtastar_world) 1 19 = Inr 0"
  apply (simp add: update_lrta_def Let_def NPC_init_lrta_def lrtastar_neighbors py_min_def
      manhattan_def update_heuristic_def)
  apply (simp add: lrtastar_world_def maze_set_def py_index_def py_setitem_def maze_at_def)
  done

subsection \<open>One move per tick\<close>

lemma game11_neighbors:
  "get_neighbors (game11_world (replicate 20 (replicate 20 0))) (0, 0) = Inr [(1, 0), (0, 1)]"
  by (simp add: get_neighbors_def offsets_def game11_world_def maze_at_def py_index_def)

text \<open>
  Claim C7 fails in \<^verbatim>\<open>game11.py\<close>. On a 20 by 20 grid without walls, with the agent on (0,0)
  and the goal (19,19), the first call of \<open>NPC.update\<close> pops (0,0) and then, for each of its
  two neighbours in turn, appends the neighbour to the path and assigns it to the position:
  the path grows by two cells in one tick, and the position is assigned twice.
\<close>

theorem update11_two_moves:
  "(case update11 (game11_world (replicate 20 (replicate 20 0))) (NPC_init11 (0, 0) (19, 19)) of
      Inl e \<Rightarrow> None | Inr (w', n') \<Rightarrow> Some (path n', position n'))
   = Some ([(0, 0), (1, 0), (0, 1)], (0, 1))"
  by (simp add: update11_def Let_def NPC_init11_def heappush_def heappop_def game11_neighbors
      backtrack_def)

subsection \<open>Backtracking and the stuck report\<close>

text \<open>
  Claim C8, as stated, fails in its second half. With one cell on the path and no viable
  neighbour, \<open>update\<close> returns nothing that tells the caller: the agent is as before (but
  for the cell appended to \<open>visited\<close>), its state is still \<open>MOVING\<close>, and the stuck
  condition is two printed lines.
\<close>

theorem stuck_is_printed:
  "update10 pocket_world (NPC_init10 (0, 0) (1, 0)) [] =
     Inr (pocket_world\<lparr>stdout := [''No valid neighbors for (0, 0). Backtracking...'',
                                   ''No path to backtrack. Stuck!'']\<rparr>,
          (NPC_init10 (0, 0) (1, 0))\<lparr>visited := [(0, 0)]\<rparr>)
   \<and> fsm (NPC_init10 (0, 0) (1, 0)) = MOVING"
  apply (simp add: update10_def Let_def pocket_neighbors show_cell_origin NPC_init10_def
      backtrack_def print_def)
  apply (simp add: pocket_world_def)
  done

text \<open>
  Claim C8, amended. When the planner finds no viable neighbour and the path has more than
  one cell, it pops the last cell and stands on the new last cell. When the path has exactly
  one cell, it prints \<open>No path to backtrack. Stuck!\<close> and returns no value; position, path
  and state are unchanged.
\<close>

theorem backtrack_or_stuck:
  assumes "fsm n = MOVING" and "position n \<noteq> goal n"
    and "get_neighbors w (position n) = Inr all_neighbors"
    and "filter (\<lambda>c. c \<notin> set barriers) all_neighbors = []"
  shows "(length (path n) > 1 \<longrightarrow>
            update10 w n barriers =
              Inr (print (''No valid neighbors for '' @ show_cell (position n) @ ''. Backtracking...'') w,
                   n\<lparr>visited := visited n @ [position n], path := butlast (path n),
                     position := last (butlast (path n))\<rparr>))
       \<and> (length (path n) = 1 \<longrightarrow>
            update10 w n barriers =
              Inr (w\<lparr>stdout := stdout w @
                       [''No valid neighbors for '' @ show_cell (position n) @ ''. Backtracking...'',
                        ''No path to backtrack. Stuck!'']\<rparr>,
                   n\<lparr>visited := visited n @ [position n]\<rparr>))"
  using assms by (simp add: update10_def Let_def backtrack_def print_def)

theorem backtrack_or_stuck_witness:
  "fsm (NPC_init10 (0, 0) (1, 0)) = MOVING
   \<and> position (NPC_init10 (0, 0) (1, 0)) \<noteq> goal (NPC_init10 (0, 0) (1, 0))
   \<and> get_neighbors pocket_world (position (NPC_init10 (0, 0) (1, 0))) = Inr []
   \<and> filter (\<lambda>c. c \<notin> set []) [] = ([] :: cell list)
   \<and> length (path (NPC_init10 (0, 0) (1, 0))) = 1
   \<and> update10 pocket_world (NPC_init10 (0, 0) (1, 0)) [] =
       Inr (pocket_world\<lparr>stdout := [''No valid neighbors for (0, 0). Backtracking...'',
                                     ''No path to backtrack. Stuck!'']\<rparr>,
            (NPC_init10 (0, 0) (1, 0))\<lparr>visited := [(0, 0)]\<rparr>)"
proof -
  let ?n = "NPC_init10 (0, 0) (1, 0)"
  have h1: "fsm ?n = MOVING" and h2: "position ?n \<noteq> goal ?n"
    and h3: "get_neighbors pocket_world (position ?n) = Inr []"
    and h4: "filter (\<lambda>c. c \<notin> set []) [] = ([] :: cell list)"
    and h5: "length (path ?n) = 1"
    by (simp_all add: NPC_init10_def pocket_neighbors)
  from backtrack_or_stuck[OF h1 h2 h3 h4] h5
  have "update10 pocket_world ?n [] =
     Inr (pocket_world\<lparr>stdout := stdout pocket_world @
            [''No valid neighbors for '' @ show_cell (position ?n) @ ''. Backtracking...'',
             ''No path to backtrack. Stuck!'']\<rparr>,
          ?n\<lparr>visited := visited ?n @ [position ?n]\<rparr>)" by blast
  moreover have "stdout pocket_world = []" "position ?n = (0, 0)" "visited ?n = []"
    by (simp_all add: pocket_world_def NPC_init10_def)
  ultimately have "update10 pocket_world ?n [] =
       Inr (pocket_world\<lparr>stdout := [''No valid neighbors for (0, 0). Backtracking...'',
                                     ''No path to backtrack. Stuck!'']\<rparr>,
            ?n\<lparr>visited := [(0, 0)]\<rparr>)"
    by (simp add: show_cell_origin)
  with h1 h2 h3 h4 h5 show ?thesis by blast
qed


subsection \<open>The greedy choice\<close>



lemma open3_neighbors: "get_neighbors open3_world (1, 2) = Inr [(0, 2), (2, 2), (1, 1)]"
  by (simp add: get_neighbors_def offsets_def open3_world_def maze_at_def py_index_def)






subsection \<open>The path never loses its start\<close>

lemma backtrack_path:
  assumes "backtrack w n = (w', n')" and "path n \<noteq> []"
  shows "path n' \<noteq> [] \<and> hd (path n') = hd (path n)
       \<and> (path n' = path n \<or> (1 < length (path n) \<and> path n' = butlast (path n)))"
proof (cases "1 < length (path n)")
  case True
  then obtain a b rest where "path n = a # b # rest"
    by (cases "path n"; cases "tl (path n)") auto
  with assms True show ?thesis by (auto simp: backtrack_def Let_def)
next
  case False
  with assms show ?thesis by (auto simp: backtrack_def)
qed

lemma update10_path:
  assumes "update10 w n barriers = Inr (w', n')" and "path n \<noteq> []"
  shows "path n' \<noteq> [] \<and> hd (path n') = hd (path n)
       \<and> (path n' = path n \<or> (\<exists>c. path n' = path n @ [c])
          \<or> (1 < length (path n) \<and> path n' = butlast (path n)))"
proof -
  let ?n1 = "n\<lparr>visited := visited n @ [position n]\<rparr>"
  have p: "path ?n1 = path n" by simp
  from assms show ?thesis
    apply (simp add: update10_def Let_def split: if_splits sum.splits)
    using backtrack_path[of _ ?n1 w' n'] p
       apply auto
    done
qed

lemma update_lrta_path:
  assumes "update_lrta w n barriers = Inr (w', n')" and "path n \<noteq> []"
  shows "path n' \<noteq> [] \<and> hd (path n') = hd (path n)
       \<and> (path n' = path n \<or> (\<exists>c. path n' = path n @ [c])
          \<or> (1 < length (path n) \<and> path n' = butlast (path n)))"
proof -
  let ?n1 = "n\<lparr>visited := visited n @ [position n]\<rparr>"
  have p: "path ?n1 = path n" by simp
  from assms show ?thesis
    apply (simp add: update_lrta_def Let_def split: if_splits sum.splits)
    using backtrack_path[of _ ?n1 w' n'] p
       apply auto
    done
qed

lemma ticks10_path:
  "ticks10 w n bss = Inr (w', n') \<Longrightarrow> path n \<noteq> [] \<Longrightarrow> path n' \<noteq> [] \<and> hd (path n') = hd (path n)"
proof (induction bss arbitrary: w n)
  case Nil
  then show ?case by simp
next
  case (Cons b bss)
  from Cons.prems(1) obtain w1 n1 where u: "update10 w n b = Inr (w1, n1)"
    and t: "ticks10 w1 n1 bss = Inr (w', n')"
    by (auto split: sum.splits)
  from update10_path[OF u Cons.prems(2)] Cons.IH[OF t] show ?case by simp
qed

lemma ticks_lrta_path:
  "ticks_lrta w n bss = Inr (w', n') \<Longrightarrow> path n \<noteq> [] \<Longrightarrow> path n' \<noteq> [] \<and> hd (path n') = hd (path n)"
proof (induction bss arbitrary: w n)
  case Nil
  then show ?case by simp
next
  case (Cons b bss)
  from Cons.prems(1) obtain w1 n1 where u: "update_lrta w n b = Inr (w1, n1)"
    and t: "ticks_lrta w1 n1 bss = Inr (w', n')"
    by (auto split: sum.splits)
  from update_lrta_path[OF u Cons.prems(2)] Cons.IH[OF t] show ?case by simp
qed

lemma path_invariant10:
  assumes "ticks10 w (NPC_init10 start gl) bss = Inr (w1, n1)"
    and "update10 w1 n1 barriers = Inr (w2, n2)"
  shows "path n1 \<noteq> [] \<and> hd (path n1) = start \<and> path n2 \<noteq> [] \<and> hd (path n2) = start
        \<and> (path n2 = path n1 \<or> (\<exists>c. path n2 = path n1 @ [c])
           \<or> (1 < length (path n1) \<and> path n2 = butlast (path n1)))"
proof -
  have "path (NPC_init10 start gl) \<noteq> []" "hd (path (NPC_init10 start gl)) = start"
    by (simp_all add: NPC_init10_def)
  with ticks10_path[OF assms(1)] have b: "path n1 \<noteq> [] \<and> hd (path n1) = start" by simp
  with update10_path[OF assms(2)] show ?thesis by simp
qed

lemma path_invariant_lrta:
  assumes "ticks_lrta w (NPC_init_lrta start gl) bss = Inr (w1, n1)"
    and "update_lrta w1 n1 barriers = Inr (w2, n2)"
  shows "path n1 \<noteq> [] \<and> hd (path n1) = start \<and> path n2 \<noteq> [] \<and> hd (path n2) = start
        \<and> (path n2 = path n1 \<or> (\<exists>c. path n2 = path n1 @ [c])
           \<or> (1 < length (path n1) \<and> path n2 = butlast (path n1)))"
proof -
  have "path (NPC_init_lrta start gl) \<noteq> []" "hd (path (NPC_init_lrta start gl)) = start"
    by (simp_all add: NPC_init_lrta_def)
  with ticks_lrta_path[OF assms(1)] have b: "path n1 \<noteq> [] \<and> hd (path n1) = start" by simp
  with update_lrta_path[OF assms(2)] show ?thesis by simp
qed


text \<open>
  Claim C10. In \<^verbatim>\<open>game10.py\<close> and in \<^verbatim>\<open>lrtastar.py\<close>, after any number of ticks from
  \<open>NPC.__init__\<close> the path is not empty and its first cell is the start cell; one more tick
  keeps that, and it leaves the path as it is, appends exactly one cell, or removes the last
  cell of a path of more than one cell.
\<close>

theorem path_keeps_start:
  "(ticks10 w (NPC_init10 start gl) bss = Inr (w1, n1) \<and> update10 w1 n1 barriers = Inr (w2, n2)
      \<longrightarrow> path n1 \<noteq> [] \<and> hd (path n1) = start \<and> path n2 \<noteq> [] \<and> hd (path n2) = start
        \<and> (path n2 = path n1 \<or> (\<exists>c. path n2 = path n1 @ [c])
           \<or> (1 < length (path n1) \<and> path n2 = butlast (path n1))))
 \<and> (ticks_lrta v (NPC_init_lrta start2 gl2) bss2 = Inr (v1, m1) \<and> update_lrta v1 m1 barriers2 = Inr (v2, m2)
      \<longrightarrow> path m1 \<noteq> [] \<and> hd (path m1) = start2 \<and> path m2 \<noteq> [] \<and> hd (path m2) = start2
        \<and> (path m2 = path m1 \<or> (\<exists>c. path m2 = path m1 @ [c])
           \<or> (1 < length (path m1) \<and> path m2 = butlast (path m1))))"
  using path_invariant10[of w start gl bss w1 n1 barriers w2 n2]
    path_invariant_lrta[of v start2 gl2 bss2 v1 m1 barriers2 v2 m2]
  by blast

lemma open3_first_tick: "ticks10 open3_world (NPC_init10 (1, 2) (1, 0)) [[(1, 1)]] = Inr (open3_world, open3_agent1)"
  by (simp add: update10_def Let_def NPC_init10_def open3_neighbors py_min_def heuristic10_def manhattan_def open3_agent1_def)

lemma open3_neighbors2: "get_neighbors open3_world (0, 2) = Inr [(1, 2), (0, 1)]"
  by (simp add: get_neighbors_def offsets_def open3_world_def maze_at_def py_index_def)

lemma show_cell_12: "show_cell (1, 2) = ''(1, 2)''"
  by (simp add: show_cell_def show_int_def show_nat.simps digit_char_def)

lemma open3_second_tick: "update10 open3_world open3_agent1 [] = Inr (print ''Revisiting (1, 2). Backtracking...'' open3_world, open3_agent2)"
  by (simp add: update10_def Let_def NPC_init10_def open3_neighbors2 py_min_def heuristic10_def manhattan_def open3_agent1_def open3_agent2_def backtrack_def show_cell_12)

lemma lrtastar_first_tick: "update_lrta lrtastar_world (NPC_init_lrta (1, 19) (1, 0)) [] =
    Inr (lrtastar_world\<lparr>maze := (replicate 20 (replicate 3 0))[19 := [0, 18, 0]]\<rparr>, lrtastar_agent1)"
  apply (simp add: update_lrta_def Let_def NPC_init_lrta_def lrtastar_neighbors py_min_def
      manhattan_def update_heuristic_def lrtastar_agent1_def)
  apply (simp add: lrtastar_world_def maze_set_def py_index_def py_setitem_def numeral_3_eq_3)
  done

theorem path_keeps_start_witness:
  "ticks10 open3_world (NPC_init10 (1, 2) (1, 0)) [[(1, 1)]] = Inr (open3_world, open3_agent1)
   \<and> update10 open3_world open3_agent1 [] = Inr (print ''Revisiting (1, 2). Backtracking...'' open3_world, open3_agent2)
   \<and> path open3_agent1 = [(1, 2), (0, 2)] \<and> path open3_agent2 = [(1, 2)]
   \<and> ticks_lrta lrtastar_world (NPC_init_lrta (1, 19) (1, 0)) [] = Inr (lrtastar_world, NPC_init_lrta (1, 19) (1, 0))
   \<and> update_lrta lrtastar_world (NPC_init_lrta (1, 19) (1, 0)) [] =
       Inr (lrtastar_world\<lparr>maze := (replicate 20 (replicate 3 0))[19 := [0, 18, 0]]\<rparr>, lrtastar_agent1)
   \<and> path lrtastar_agent1 = [(1, 19), (1, 18)]
   \<and> hd (path open3_agent2) = (1, 2) \<and> hd (path lrtastar_agent1) = (1, 19)"
proof -
  have a: "ticks10 open3_world (NPC_init10 (1, 2) (1, 0)) [[(1, 1)]] = Inr (open3_world, open3_agent1)
     \<and> update10 open3_world open3_agent1 [] = Inr (print ''Revisiting (1, 2). Backtracking...'' open3_world, open3_agent2)"
    using open3_first_tick open3_second_tick by simp
  have b: "ticks_lrta lrtastar_world (NPC_init_lrta (1, 19) (1, 0)) [] = Inr (lrtastar_world, NPC_init_lrta (1, 19) (1, 0))
     \<and> update_lrta lrtastar_world (NPC_init_lrta (1, 19) (1, 0)) [] =
       Inr (lrtastar_world\<lparr>maze := (replicate 20 (replicate 3 0))[19 := [0, 18, 0]]\<rparr>, lrtastar_agent1)"
    using lrtastar_first_tick by simp
  have c: "path open3_agent1 = [(1, 2), (0, 2)]" "path open3_agent2 = [(1, 2)]" "path lrtastar_agent1 = [(1, 19), (1, 18)]"
    by (simp_all add: open3_agent1_def open3_agent2_def lrtastar_agent1_def)
  from path_keeps_start[of open3_world "(1, 2)" "(1, 0)" "[[(1, 1)]]" open3_world open3_agent1 "[]"
      "print ''Revisiting (1, 2). Backtracking...'' open3_world" open3_agent2
      lrtastar_world "(1, 19)" "(1, 0)" "[]" lrtastar_world "NPC_init_lrta (1, 19) (1, 0)" "[]"
      "lrtastar_world\<lparr>maze := (replicate 20 (replicate 3 0))[19 := [0, 18, 0]]\<rparr>" lrtastar_agent1] a b
  have "hd (path open3_agent2) = (1, 2) \<and> hd (path lrtastar_agent1) = (1, 19)" by blast
  with a b c show ?thesis by blast
qed

subsection \<open>The bound on the number of ticks\<close>

lemma set_open_cells: "set (open_cells w) = {c. open_cell w c}"
  by (auto simp: open_cells_def open_cell_def)

lemma distinct_open_cells: "distinct (open_cells w)"
  by (simp add: open_cells_def distinct_product)

lemma maze_at_ok:
  assumes "grid_ok w" and "0 \<le> x" "x < GRID_WIDTH w" "0 \<le> y" "y < GRID_HEIGHT w"
  shows "\<exists>v. maze_at (maze w) x y = Inr v"
proof -
  from assms(1) have "int (length (maze w)) = GRID_HEIGHT w" by (simp add: grid_ok_def)
  with assms(4,5) have y: "nat y < length (maze w)" by linarith
  then have "maze w ! nat y \<in> set (maze w)" by simp
  with assms(1) have "int (length (maze w ! nat y)) = GRID_WIDTH w" by (simp add: grid_ok_def)
  with assms y show ?thesis
    by (simp add: maze_at_def py_index_def grid_ok_def)
qed

lemma neighbors_loop_ok:
  assumes "grid_ok w"
  shows "\<exists>nbs. neighbors_loop w pos ds acc = Inr nbs"
proof (induction ds arbitrary: acc)
  case Nil
  then show ?case by simp
next
  case (Cons d ds)
  let ?x = "fst pos + fst d" and ?y = "snd pos + snd d"
  show ?case
  proof (cases "0 \<le> ?x \<and> ?x < GRID_WIDTH w \<and> 0 \<le> ?y \<and> ?y < GRID_HEIGHT w")
    case True
    with maze_at_ok[OF assms, of ?x ?y] obtain v where "maze_at (maze w) ?x ?y = Inr v" by blast
    with True Cons.IH show ?thesis by (simp add: Let_def)
  next
    case False
    with Cons.IH[of acc] show ?thesis by (auto simp: Let_def)
  qed
qed

lemma get_neighbors_ok:
  assumes "grid_ok w"
  shows "get_neighbors w pos = Inr (filter (open_cell w) (around pos))"
proof -
  from neighbors_loop_ok[OF assms, of pos offsets "[]"] obtain nbs where
    "get_neighbors w pos = Inr nbs" by (auto simp: get_neighbors_def)
  with get_neighbors_filter[OF this] show ?thesis by simp
qed

lemma potential_bound:
  assumes "planner_inv w n"
  shows "potential n \<le> 2 * int (length (open_cells w)) - 1"
proof -
  from assms have s: "seen n \<subseteq> set (open_cells w)" and p: "path n \<noteq> []"
    by (simp_all add: planner_inv_def)
  from s have "card (seen n) \<le> card (set (open_cells w))" by (intro card_mono) auto
  also have "\<dots> \<le> length (open_cells w)" by (rule card_length)
  finally have "card (seen n) \<le> length (open_cells w)" .
  moreover from p have "1 \<le> length (path n)" by (cases "path n") auto
  ultimately show ?thesis by (simp add: potential_def)
qed

lemma seen_visit: "seen (n\<lparr>visited := visited n @ [position n]\<rparr>) = seen n"
  by (auto simp: seen_def)

lemma planner_inv_globals:
  assumes "maze w' = maze w" "GRID_WIDTH w' = GRID_WIDTH w" "GRID_HEIGHT w' = GRID_HEIGHT w"
  shows "planner_inv w' n = planner_inv w n" and "grid_ok w' = grid_ok w"
    and "open_cells w' = open_cells w"
proof -
  from assms have "open_cell w' = open_cell w" by (intro ext) (simp add: open_cell_def)
  with assms show o: "open_cells w' = open_cells w" by (simp add: open_cells_def)
  then show "planner_inv w' n = planner_inv w n" by (simp add: planner_inv_def)
  from assms show "grid_ok w' = grid_ok w" by (simp add: grid_ok_def)
qed

text \<open>A call of \<open>backtrack\<close> after a line was printed: it reports stuck, or the potential
  grows by one.\<close>

lemma backtrack_progress:
  assumes inv: "planner_inv w n"
    and bt: "backtrack (print msg w) (n\<lparr>visited := visited n @ [position n]\<rparr>) = (w', n')"
  shows "reports_stuck w w' \<or> (planner_inv w n' \<and> potential n' = potential n + 1)"
proof (cases "1 < length (path n)")
  case False
  with bt have "stdout w' = stdout w @ [msg, stuck_line]"
    by (auto simp: backtrack_def print_def stuck_line_def)
  then show ?thesis by (simp add: reports_stuck_def printed_def)
next
  case True
  let ?p = "butlast (path n)"
  from True have ne: "?p \<noteq> []" by (cases "path n" rule: rev_cases) auto
  from True bt have n': "n' = n\<lparr>visited := visited n @ [position n], path := ?p, position := last ?p\<rparr>"
    by (auto simp: backtrack_def Let_def)
  from inv have i: "fsm n = MOVING" "path n \<noteq> []" "set (path n) \<subseteq> seen n"
    "seen n \<subseteq> set (open_cells w)"
    by (simp_all add: planner_inv_def)
  have sub: "set ?p \<subseteq> set (path n)" by (auto dest: in_set_butlastD)
  from ne have "last ?p \<in> set ?p" by simp
  with sub i(3) have lp: "last ?p \<in> seen n" by blast
  have s: "seen n' = seen n"
    unfolding n' using lp by (auto simp: seen_def)
  have "planner_inv w n'"
    unfolding planner_inv_def s using i ne sub by (auto simp: n')
  moreover have "length (path n') = length (path n) - 1" by (simp add: n')
  with True s have "potential n' = potential n + 1" by (simp add: potential_def)
  ultimately show ?thesis by blast
qed

lemma tick_progress:
  assumes ok: "grid_ok w" and inv: "planner_inv w n"
  shows "\<exists>w' n'. update10 w n barriers = Inr (w', n')
           \<and> (fsm n' = GOAL_REACHED \<or> reports_stuck w w'
               \<or> (planner_inv w n' \<and> potential n' = potential n + 1))"
proof -
  let ?n1 = "n\<lparr>visited := visited n @ [position n]\<rparr>"
  let ?nbs = "filter (\<lambda>c. c \<notin> set barriers) (filter (open_cell w) (around (position n)))"
  from inv have mv: "fsm n = MOVING" by (simp add: planner_inv_def)
  note gn = get_neighbors_ok[OF ok, of "position n"]
  show ?thesis
  proof (cases "position n = goal n")
    case True
    with mv show ?thesis by (simp add: update10_def Let_def)
  next
    case ng: False
    show ?thesis
    proof (cases "?nbs = []")
      case True
      obtain w' n' where bt: "backtrack
          (print (''No valid neighbors for '' @ show_cell (position n) @ ''. Backtracking...'') w) ?n1
          = (w', n')" by (cases "backtrack
          (print (''No valid neighbors for '' @ show_cell (position n) @ ''. Backtracking...'') w) ?n1")
      with mv ng True gn have "update10 w n barriers = Inr (w', n')"
        by (simp add: update10_def Let_def)
      with backtrack_progress[OF inv bt] show ?thesis by blast
    next
      case ne: False
      from py_min_first[OF ne, of "\<lambda>c. heuristic10 ?n1 c (goal ?n1)"] obtain i where
        i: "i < length ?nbs" "py_min (\<lambda>c. heuristic10 ?n1 c (goal ?n1)) ?nbs = Inr (?nbs ! i)"
        by blast
      let ?c = "?nbs ! i"
      from i(1) have "?c \<in> set ?nbs" by (rule nth_mem)
      then have oc: "open_cell w ?c" by simp
      show ?thesis
      proof (cases "?c \<in> set (visited ?n1)")
        case True
        obtain w' n' where bt: "backtrack
          (print (''Revisiting '' @ show_cell ?c @ ''. Backtracking...'') w) ?n1 = (w', n')"
          by (cases "backtrack (print (''Revisiting '' @ show_cell ?c @ ''. Backtracking...'') w) ?n1")
        with mv ng ne gn i(2) True have "update10 w n barriers = Inr (w', n')"
          by (simp add: update10_def Let_def)
        with backtrack_progress[OF inv bt] show ?thesis by blast
      next
        case False
        let ?n' = "?n1\<lparr>previous_position := Some (position ?n1), position := ?c,
                      path := path ?n1 @ [?c],
                      cell_costs := (cell_costs ?n1)(?c \<mapsto>
                        (case cell_costs ?n1 ?c of None \<Rightarrow> 0 | Some c \<Rightarrow> c) + 1)\<rparr>"
        from mv ng ne gn i(2) False have u: "update10 w n barriers = Inr (w, ?n')"
          by (simp add: update10_def Let_def)
        from False have new: "?c \<notin> seen n" by (simp add: seen_def)
        have s: "seen ?n' = insert ?c (seen n)" by (auto simp: seen_def)
        from inv have i': "path n \<noteq> []" "set (path n) \<subseteq> seen n" "seen n \<subseteq> set (open_cells w)"
          by (simp_all add: planner_inv_def)
        have fin: "finite (seen n)" by (simp add: seen_def)
        have "planner_inv w ?n'"
          unfolding planner_inv_def s using mv i' oc by (auto simp: set_open_cells)
        moreover have "card (seen ?n') = card (seen n) + 1"
          unfolding s using new fin by simp
        then have "potential ?n' = potential n + 1" by (simp add: potential_def)
        ultimately show ?thesis using u by blast
      qed
    qed
  qed
qed

lemma run_reaches_end:
  assumes "grid_ok w" and "planner_inv w n"
    and "2 * int (length (open_cells w)) \<le> potential n + int (length bss)"
  shows "\<exists>k < length bss. \<exists>w1 n1 w2 n2.
           ticks10 w n (take k bss) = Inr (w1, n1)
           \<and> update10 w1 n1 (bss ! k) = Inr (w2, n2)
           \<and> (fsm n2 = GOAL_REACHED \<or> reports_stuck w1 w2)"
  using assms
proof (induction bss arbitrary: w n)
  case Nil
  with potential_bound[OF Nil.prems(2)] show ?case by simp
next
  case (Cons b bss)
  from tick_progress[OF Cons.prems(1,2), of b] obtain w' n' where
    u: "update10 w n b = Inr (w', n')"
    and c: "fsm n' = GOAL_REACHED \<or> reports_stuck w w'
               \<or> (planner_inv w n' \<and> potential n' = potential n + 1)"
    by blast
  show ?case
  proof (cases "fsm n' = GOAL_REACHED \<or> reports_stuck w w'")
    case True
    with u have "ticks10 w n (take 0 (b # bss)) = Inr (w, n)
       \<and> update10 w n ((b # bss) ! 0) = Inr (w', n')
       \<and> (fsm n' = GOAL_REACHED \<or> reports_stuck w w')" by simp
    then show ?thesis by blast
  next
    case False
    with c have inv': "planner_inv w n'" and pot: "potential n' = potential n + 1" by auto
    from update10_globals[OF u] have g: "maze w' = maze w" "GRID_WIDTH w' = GRID_WIDTH w"
      "GRID_HEIGHT w' = GRID_HEIGHT w" by simp_all
    note same = planner_inv_globals(1)[OF g, of n'] planner_inv_globals(2)[OF g]
      planner_inv_globals(3)[OF g]
    from Cons.prems(3) pot same(3)
    have b: "2 * int (length (open_cells w')) \<le> potential n' + int (length bss)" by simp
    have ok': "grid_ok w'" using same(2) Cons.prems(1) by simp
    have inv'': "planner_inv w' n'" using same(1) inv' by simp
    from Cons.IH[OF ok' inv'' b]
    obtain k w1 n1 w2 n2 where k: "k < length bss"
      "ticks10 w' n' (take k bss) = Inr (w1, n1)"
      "update10 w1 n1 (bss ! k) = Inr (w2, n2)"
      "fsm n2 = GOAL_REACHED \<or> reports_stuck w1 w2"
      by blast
    from k(1,2,3) u have "Suc k < length (b # bss)
       \<and> ticks10 w n (take (Suc k) (b # bss)) = Inr (w1, n1)
       \<and> update10 w1 n1 ((b # bss) ! Suc k) = Inr (w2, n2)" by simp
    with k(4) show ?thesis by blast
  qed
qed

lemma init_planner_inv:
  assumes "open_cell w start"
  shows "planner_inv w (NPC_init10 start gl)" and "potential (NPC_init10 start gl) = 1"
  using assms by (simp_all add: planner_inv_def NPC_init10_def seen_def set_open_cells potential_def)


lemma backtrack_trail:
  assumes inv: "trail_inv n"
    and bt: "backtrack (print msg w) (n\<lparr>visited := visited n @ [position n]\<rparr>) = (w', n')"
  shows "maze w' = maze w \<and> GRID_WIDTH w' = GRID_WIDTH w \<and> GRID_HEIGHT w' = GRID_HEIGHT w
       \<and> (reports_stuck w w'
           \<or> (trail_inv n' \<and> seen n' = seen n \<and> potential n' = potential n + 1))"
proof (cases "1 < length (path n)")
  case False
  with bt have "stdout w' = stdout w @ [msg, stuck_line]" and "maze w' = maze w"
    and "GRID_WIDTH w' = GRID_WIDTH w" and "GRID_HEIGHT w' = GRID_HEIGHT w"
    by (auto simp: backtrack_def print_def stuck_line_def)
  then show ?thesis by (simp add: reports_stuck_def printed_def)
next
  case True
  let ?p = "butlast (path n)"
  from True have ne: "?p \<noteq> []" by (cases "path n" rule: rev_cases) auto
  from True bt have n': "n' = n\<lparr>visited := visited n @ [position n], path := ?p, position := last ?p\<rparr>"
    and w': "w' = print msg w"
    by (auto simp: backtrack_def Let_def)
  from inv have i: "fsm n = MOVING" "path n \<noteq> []" "set (path n) \<subseteq> seen n"
    by (simp_all add: trail_inv_def)
  have sub: "set ?p \<subseteq> set (path n)" by (auto dest: in_set_butlastD)
  from ne have "last ?p \<in> set ?p" by simp
  with sub i(3) have lp: "last ?p \<in> seen n" by blast
  have s: "seen n' = seen n"
    unfolding n' using lp by (auto simp: seen_def)
  have "trail_inv n'"
    unfolding trail_inv_def s using i ne sub by (auto simp: n')
  moreover have "length (path n') = length (path n) - 1" by (simp add: n')
  with True s have "potential n' = potential n + 1" by (simp add: potential_def)
  ultimately show ?thesis using s by (simp add: w' print_def)
qed

lemma py_index_ok: "0 \<le> i \<Longrightarrow> i < int (length xs) \<Longrightarrow> py_index xs i = Inr (xs ! nat i)"
  by (simp add: py_index_def)

lemma maze_set_ok:
  assumes ok: "grid_ok w" and b: "0 \<le> x" "x < GRID_WIDTH w" "0 \<le> y" "y < GRID_HEIGHT w"
  shows "\<exists>m. maze_set (maze w) x y v = Inr m
           \<and> int (length m) = GRID_HEIGHT w
           \<and> (\<forall>row \<in> set m. int (length row) = GRID_WIDTH w)
           \<and> (\<forall>x' y'. 0 \<le> x' \<and> 0 \<le> y' \<and> (x', y') \<noteq> (x, y) \<longrightarrow>
                 maze_at m x' y' = maze_at (maze w) x' y')"
proof -
  let ?mz = "maze w"
  let ?row = "?mz ! nat y"
  let ?m = "?mz[nat y := ?row[nat x := v]]"
  from ok have h: "int (length ?mz) = GRID_HEIGHT w"
    and rows: "\<forall>row \<in> set ?mz. int (length row) = GRID_WIDTH w"
    by (simp_all add: grid_ok_def)
  from h b have y: "nat y < length ?mz" by linarith
  then have "?row \<in> set ?mz" by simp
  with rows have rl: "int (length ?row) = GRID_WIDTH w" by blast
  have 1: "maze_set ?mz x y v = Inr ?m"
    using b h rl by (simp add: maze_set_def py_index_ok py_setitem_def)
  have 2: "int (length ?m) = GRID_HEIGHT w" using h by simp
  have 3: "\<forall>row \<in> set ?m. int (length row) = GRID_WIDTH w"
  proof
    fix row assume "row \<in> set ?m"
    then have "row = ?row[nat x := v] \<or> row \<in> set ?mz"
      using set_update_subset_insert[of ?mz "nat y" "?row[nat x := v]"] by auto
    with rows rl show "int (length row) = GRID_WIDTH w" by auto
  qed
  have 4: "\<forall>x' y'. 0 \<le> x' \<and> 0 \<le> y' \<and> (x', y') \<noteq> (x, y) \<longrightarrow>
                 maze_at ?m x' y' = maze_at ?mz x' y'"
  proof (intro allI impI)
    fix x' y' :: int
    assume a: "0 \<le> x' \<and> 0 \<le> y' \<and> (x', y') \<noteq> (x, y)"
    show "maze_at ?m x' y' = maze_at ?mz x' y'"
    proof (cases "y' < int (length ?mz)")
      case False
      with a show ?thesis by (simp add: maze_at_def py_index_def)
    next
      case True
      with a have iy: "py_index ?m y' = Inr (?m ! nat y')" "py_index ?mz y' = Inr (?mz ! nat y')"
        by (simp_all add: py_index_ok)
      show ?thesis
      proof (cases "y' = y")
        case False
        with a b have "nat y' \<noteq> nat y" by linarith
        then have "?m ! nat y' = ?mz ! nat y'" by simp
        with iy show ?thesis by (simp add: maze_at_def)
      next
        case yy: True
        with a have xx: "x' \<noteq> x" by simp
        from yy y have r: "?m ! nat y' = ?row[nat x := v]" by simp
        from xx a b have "nat x' \<noteq> nat x" by linarith
        with a have "py_index (?row[nat x := v]) x' = py_index ?row x'"
          by (simp add: py_index_def Let_def)
        with iy r yy show ?thesis by (simp add: maze_at_def)
      qed
    qed
  qed
  from 1 2 3 4 show ?thesis by blast
qed

lemma reports_stuck_stdout: "stdout w1 = stdout w \<Longrightarrow> reports_stuck w1 w' = reports_stuck w w'"
  by (simp add: reports_stuck_def printed_def)

lemma open_cell_same:
  assumes "GRID_WIDTH w' = GRID_WIDTH w" "GRID_HEIGHT w' = GRID_HEIGHT w"
    and "0 \<le> fst c \<and> 0 \<le> snd c \<longrightarrow> maze_at (maze w') (fst c) (snd c) = maze_at (maze w) (fst c) (snd c)"
  shows "open_cell w' c = open_cell w c"
  using assms by (auto simp: open_cell_def)

lemma tick_progress_lrta:
  assumes inv: "lrta_inv w0 w n"
  shows "\<exists>w' n'. update_lrta w n barriers = Inr (w', n')
           \<and> (fsm n' = GOAL_REACHED \<or> reports_stuck w w'
               \<or> (lrta_inv w0 w' n' \<and> potential n' = potential n + 1))"
proof -
  let ?n1 = "n\<lparr>visited := visited n @ [position n]\<rparr>"
  let ?pos = "position n"
  let ?nbs = "filter (open_cell w) (around ?pos)"
  from inv have ti: "trail_inv n" and so: "seen n \<subseteq> set (open_cells w0)" and ok: "grid_ok w"
    and dw: "GRID_WIDTH w = GRID_WIDTH w0" and dh: "GRID_HEIGHT w = GRID_HEIGHT w0"
    and fr: "\<forall>c. c \<notin> seen n \<longrightarrow> open_cell w c = open_cell w0 c"
    by (simp_all add: lrta_inv_def)
  from ti have mv: "fsm n = MOVING" by (simp add: trail_inv_def)
  note gn = get_neighbors_ok[OF ok, of ?pos]
  show ?thesis
  proof (cases "?pos = goal n")
    case True
    with mv show ?thesis by (simp add: update_lrta_def Let_def)
  next
    case ng: False
    show ?thesis
    proof (cases "?nbs = []")
      case True
      let ?msg = "''No valid neighbors for '' @ show_cell ?pos @ ''. Backtracking...''"
      obtain w' n' where bt: "backtrack (print ?msg w) ?n1 = (w', n')"
        by (cases "backtrack (print ?msg w) ?n1")
      with mv ng True gn have u: "update_lrta w n barriers = Inr (w', n')"
        by (simp add: update_lrta_def Let_def)
      from backtrack_trail[OF ti bt] have g: "maze w' = maze w" "GRID_WIDTH w' = GRID_WIDTH w"
        "GRID_HEIGHT w' = GRID_HEIGHT w"
        and c: "reports_stuck w w' \<or> (trail_inv n' \<and> seen n' = seen n \<and> potential n' = potential n + 1)"
        by simp_all
      have "lrta_inv w0 w' n'" if "trail_inv n'" "seen n' = seen n"
      proof -
        have "grid_ok w'" using planner_inv_globals(2)[OF g] ok by simp
        moreover have "open_cell w' c = open_cell w c" for c
          by (rule open_cell_same) (simp_all add: g)
        ultimately show ?thesis using that so dw dh fr g by (simp add: lrta_inv_def)
      qed
      with c u show ?thesis by blast
    next
      case ne: False
      from py_min_first[OF ne, of "\<lambda>c. manhattan c (goal ?n1)"] obtain i where
        i: "i < length ?nbs" "py_min (\<lambda>c. manhattan c (goal ?n1)) ?nbs = Inr (?nbs ! i)"
        by blast
      let ?c = "?nbs ! i"
      from i(1) have "?c \<in> set ?nbs" by (rule nth_mem)
      then have oc: "open_cell w ?c" by simp
      have "?pos \<in> seen n" by (simp add: seen_def)
      with so have "open_cell w0 ?pos" by (auto simp: set_open_cells)
      with dw dh have pb: "0 \<le> fst ?pos" "fst ?pos < GRID_WIDTH w" "0 \<le> snd ?pos"
        "snd ?pos < GRID_HEIGHT w"
        by (simp_all add: open_cell_def)
      let ?v = "min (manhattan ?pos (goal ?n1)) (manhattan ?c (goal ?n1))"
      from maze_set_ok[OF ok pb, of ?v] obtain m where
        m: "maze_set (maze w) (fst ?pos) (snd ?pos) ?v = Inr m"
        "int (length m) = GRID_HEIGHT w"
        "\<forall>row \<in> set m. int (length row) = GRID_WIDTH w"
        "\<forall>x' y'. 0 \<le> x' \<and> 0 \<le> y' \<and> (x', y') \<noteq> (fst ?pos, snd ?pos) \<longrightarrow>
                 maze_at m x' y' = maze_at (maze w) x' y'"
        by blast
      let ?w1 = "w\<lparr>maze := m\<rparr>"
      from m(1) have uh: "update_heuristic w ?n1 ?pos ?c = Inr ?w1"
        by (simp add: update_heuristic_def Let_def)
      have ok1: "grid_ok ?w1" using m(2,3) by (simp add: grid_ok_def)
      have oc1: "open_cell ?w1 c = open_cell w c" if "c \<noteq> ?pos" for c
      proof (rule open_cell_same)
        show "GRID_WIDTH ?w1 = GRID_WIDTH w" "GRID_HEIGHT ?w1 = GRID_HEIGHT w" by simp_all
        from that have "(fst c, snd c) \<noteq> (fst ?pos, snd ?pos)" by (simp add: prod_eq_iff)
        with m(4) show "0 \<le> fst c \<and> 0 \<le> snd c \<longrightarrow>
            maze_at (maze ?w1) (fst c) (snd c) = maze_at (maze w) (fst c) (snd c)"
          by simp
      qed
      have fr1: "\<forall>c. c \<notin> seen n \<longrightarrow> open_cell ?w1 c = open_cell w0 c"
      proof (intro allI impI)
        fix c assume c: "c \<notin> seen n"
        then have "c \<noteq> ?pos" by (auto simp: seen_def)
        from oc1[OF this] fr c show "open_cell ?w1 c = open_cell w0 c" by simp
      qed
      show ?thesis
      proof (cases "?c \<in> set (visited ?n1)")
        case True
        let ?msg = "''Revisiting '' @ show_cell ?c @ ''. Backtracking...''"
        obtain w' n' where bt: "backtrack (print ?msg ?w1) ?n1 = (w', n')"
          by (cases "backtrack (print ?msg ?w1) ?n1")
        with mv ng ne gn i(2) uh True have u: "update_lrta w n barriers = Inr (w', n')"
          by (simp add: update_lrta_def Let_def)
        from backtrack_trail[OF ti bt] have g: "maze w' = maze ?w1" "GRID_WIDTH w' = GRID_WIDTH ?w1"
          "GRID_HEIGHT w' = GRID_HEIGHT ?w1"
          and c: "reports_stuck ?w1 w' \<or> (trail_inv n' \<and> seen n' = seen n \<and> potential n' = potential n + 1)"
          by simp_all
        have rs: "reports_stuck ?w1 w' = reports_stuck w w'"
          by (rule reports_stuck_stdout) simp
        have "lrta_inv w0 w' n'" if "trail_inv n'" "seen n' = seen n"
        proof -
          have "grid_ok w'" using planner_inv_globals(2)[OF g] ok1 by simp
          moreover have "open_cell w' c = open_cell ?w1 c" for c
            by (rule open_cell_same) (simp_all add: g)
          ultimately show ?thesis using that so dw dh fr1 g by (simp add: lrta_inv_def)
        qed
        with c rs u show ?thesis by blast
      next
        case False
        let ?n' = "?n1\<lparr>previous_position := Some (position ?n1), position := ?c,
                      path := path ?n1 @ [?c]\<rparr>"
        from mv ng ne gn i(2) uh False have u: "update_lrta w n barriers = Inr (?w1, ?n')"
          by (simp add: update_lrta_def Let_def)
        from False have new: "?c \<notin> seen n" by (simp add: seen_def)
        with fr oc have "open_cell w0 ?c" by blast
        then have in0: "?c \<in> set (open_cells w0)" by (simp add: set_open_cells)
        have s: "seen ?n' = insert ?c (seen n)" by (auto simp: seen_def)
        from ti have i': "path n \<noteq> []" "set (path n) \<subseteq> seen n"
          by (simp_all add: trail_inv_def)
        have fin: "finite (seen n)" by (simp add: seen_def)
        have t': "trail_inv ?n'"
          unfolding trail_inv_def s using mv i' by auto
        have "lrta_inv w0 ?w1 ?n'"
          unfolding lrta_inv_def s using t' so in0 ok1 dw dh fr1 by simp
        moreover have "card (seen ?n') = card (seen n) + 1"
          unfolding s using new fin by simp
        then have "potential ?n' = potential n + 1" by (simp add: potential_def)
        ultimately show ?thesis using u by blast
      qed
    qed
  qed
qed

lemma potential_bound_lrta:
  assumes "lrta_inv w0 w n"
  shows "potential n \<le> 2 * int (length (open_cells w0)) - 1"
proof -
  from assms have s: "seen n \<subseteq> set (open_cells w0)" and p: "path n \<noteq> []"
    by (simp_all add: lrta_inv_def trail_inv_def)
  from s have "card (seen n) \<le> card (set (open_cells w0))" by (intro card_mono) auto
  also have "\<dots> \<le> length (open_cells w0)" by (rule card_length)
  finally have "card (seen n) \<le> length (open_cells w0)" .
  moreover from p have "1 \<le> length (path n)" by (cases "path n") auto
  ultimately show ?thesis by (simp add: potential_def)
qed

lemma run_reaches_end_lrta:
  assumes "lrta_inv w0 w n"
    and "2 * int (length (open_cells w0)) \<le> potential n + int (length bss)"
  shows "\<exists>k < length bss. \<exists>w1 n1 w2 n2.
           ticks_lrta w n (take k bss) = Inr (w1, n1)
           \<and> update_lrta w1 n1 (bss ! k) = Inr (w2, n2)
           \<and> (fsm n2 = GOAL_REACHED \<or> reports_stuck w1 w2)"
  using assms
proof (induction bss arbitrary: w n)
  case Nil
  with potential_bound_lrta[OF Nil.prems(1)] show ?case by simp
next
  case (Cons b bss)
  from tick_progress_lrta[OF Cons.prems(1), of b] obtain w' n' where
    u: "update_lrta w n b = Inr (w', n')"
    and c: "fsm n' = GOAL_REACHED \<or> reports_stuck w w'
               \<or> (lrta_inv w0 w' n' \<and> potential n' = potential n + 1)"
    by blast
  show ?case
  proof (cases "fsm n' = GOAL_REACHED \<or> reports_stuck w w'")
    case True
    with u have "ticks_lrta w n (take 0 (b # bss)) = Inr (w, n)
       \<and> update_lrta w n ((b # bss) ! 0) = Inr (w', n')
       \<and> (fsm n' = GOAL_REACHED \<or> reports_stuck w w')" by simp
    then show ?thesis by blast
  next
    case False
    with c have inv': "lrta_inv w0 w' n'" and pot: "potential n' = potential n + 1" by auto
    from Cons.prems(2) pot
    have b: "2 * int (length (open_cells w0)) \<le> potential n' + int (length bss)" by simp
    from Cons.IH[OF inv' b]
    obtain k w1 n1 w2 n2 where k: "k < length bss"
      "ticks_lrta w' n' (take k bss) = Inr (w1, n1)"
      "update_lrta w1 n1 (bss ! k) = Inr (w2, n2)"
      "fsm n2 = GOAL_REACHED \<or> reports_stuck w1 w2"
      by blast
    from k(1,2,3) u have "Suc k < length (b # bss)
       \<and> ticks_lrta w n (take (Suc k) (b # bss)) = Inr (w1, n1)
       \<and> update_lrta w1 n1 ((b # bss) ! Suc k) = Inr (w2, n2)" by simp
    with k(4) show ?thesis by blast
  qed
qed

lemma init_lrta_inv:
  assumes "grid_ok w" and "open_cell w start"
  shows "lrta_inv w w (NPC_init_lrta start gl)" and "potential (NPC_init_lrta start gl) = 1"
  using assms
  by (simp_all add: lrta_inv_def trail_inv_def NPC_init_lrta_def seen_def set_open_cells potential_def)

lemma pocket_open_cells: "open_cells pocket_world = [(0, 0)]"
  by code_simp

lemma pocket_grid_ok: "grid_ok pocket_world"
  by (simp add: grid_ok_def pocket_world_def)

lemma pocket_open_start: "open_cell pocket_world (0, 0)"
  by (simp add: open_cell_def pocket_world_def maze_at_def py_index_def)


text \<open>
  Claim C2. On a grid of \<open>GRID_HEIGHT\<close> rows of \<open>GRID_WIDTH\<close> cells, with the start cell
  open, and for any barriers at the successive ticks: among the first
  \<open>2 \<times> (number of open cells)\<close> calls of \<open>NPC.update\<close> after \<open>NPC.__init__\<close>, one sets the state
  to \<open>GOAL_REACHED\<close> or reports stuck. This holds for \<^verbatim>\<open>game10.py\<close> and for \<^verbatim>\<open>lrtastar.py\<close>.
\<close>

theorem planner_terminates:
  assumes "grid_ok w" and "open_cell w start" and "length bss = 2 * length (open_cells w)"
  shows "(\<exists>k < 2 * length (open_cells w). \<exists>w1 n1 w2 n2.
           ticks10 w (NPC_init10 start gl) (take k bss) = Inr (w1, n1)
           \<and> update10 w1 n1 (bss ! k) = Inr (w2, n2)
           \<and> (fsm n2 = GOAL_REACHED \<or> reports_stuck w1 w2))
       \<and> (\<exists>k < 2 * length (open_cells w). \<exists>w1 n1 w2 n2.
           ticks_lrta w (NPC_init_lrta start gl) (take k bss) = Inr (w1, n1)
           \<and> update_lrta w1 n1 (bss ! k) = Inr (w2, n2)
           \<and> (fsm n2 = GOAL_REACHED \<or> reports_stuck w1 w2))"
proof
  from init_planner_inv[OF assms(2), of gl] assms(3)
  have "2 * int (length (open_cells w)) \<le> potential (NPC_init10 start gl) + int (length bss)"
    by simp
  from run_reaches_end[OF assms(1) init_planner_inv(1)[OF assms(2)] this] assms(3)
  show "\<exists>k < 2 * length (open_cells w). \<exists>w1 n1 w2 n2.
           ticks10 w (NPC_init10 start gl) (take k bss) = Inr (w1, n1)
           \<and> update10 w1 n1 (bss ! k) = Inr (w2, n2)
           \<and> (fsm n2 = GOAL_REACHED \<or> reports_stuck w1 w2)" by simp
next
  from init_lrta_inv[OF assms(1,2), of gl] assms(3)
  have "2 * int (length (open_cells w)) \<le> potential (NPC_init_lrta start gl) + int (length bss)"
    by simp
  from run_reaches_end_lrta[OF init_lrta_inv(1)[OF assms(1,2)] this] assms(3)
  show "\<exists>k < 2 * length (open_cells w). \<exists>w1 n1 w2 n2.
           ticks_lrta w (NPC_init_lrta start gl) (take k bss) = Inr (w1, n1)
           \<and> update_lrta w1 n1 (bss ! k) = Inr (w2, n2)
           \<and> (fsm n2 = GOAL_REACHED \<or> reports_stuck w1 w2)" by simp
qed

theorem planner_terminates_witness:
  "grid_ok pocket_world \<and> open_cell pocket_world (0, 0)
   \<and> length [[], [] :: cell list] = 2 * length (open_cells pocket_world)
   \<and> (\<exists>k < 2. \<exists>w1 n1 w2 n2.
         ticks10 pocket_world (NPC_init10 (0, 0) (1, 0)) (take k [[], []]) = Inr (w1, n1)
         \<and> update10 w1 n1 ([[], []] ! k) = Inr (w2, n2)
         \<and> (fsm n2 = GOAL_REACHED \<or> reports_stuck w1 w2))
   \<and> (\<exists>k < 2. \<exists>w1 n1 w2 n2.
         ticks_lrta pocket_world (NPC_init_lrta (0, 0) (1, 0)) (take k [[], []]) = Inr (w1, n1)
         \<and> update_lrta w1 n1 ([[], []] ! k) = Inr (w2, n2)
         \<and> (fsm n2 = GOAL_REACHED \<or> reports_stuck w1 w2))"
proof -
  have l: "length [[], [] :: cell list] = 2 * length (open_cells pocket_world)"
    by (simp add: pocket_open_cells)
  from planner_terminates[OF pocket_grid_ok pocket_open_start l, of "(1, 0)"]
  show ?thesis using pocket_grid_ok pocket_open_start l by (simp add: pocket_open_cells)
qed

section \<open>Properties of the static search\<close>

subsection \<open>Termination of the search loop\<close>

lemma finite_grid_cells: "finite (grid_cells GRID_SIZE)"
  by (simp add: grid_cells_def)

lemma relax_progress:
  assumes "relax GRID_SIZE mz gl current d st = Inr st'"
  shows "st' = st \<or> (progress GRID_SIZE st', progress GRID_SIZE st) \<in> less_than <*lex*> less_than"
proof (cases "st' = st")
  case True
  then show ?thesis by simp
next
  case False
  let ?n = "(fst current + fst d, snd current + snd d)"
  from assms False obtain gc where
    inb: "?n \<in> grid_cells GRID_SIZE" and gc: "g_score st current = Some gc"
    and cond: "case g_score st ?n of None \<Rightarrow> True | Some gn \<Rightarrow> gc + 1 < gn"
    and g': "g_score st' = (g_score st)(?n \<mapsto> gc + 1)"
    by (auto simp: relax_def Let_def grid_cells_def split: if_splits sum.splits option.splits)
  let ?val = "\<lambda>g c. case g c of None \<Rightarrow> (0::nat) | Some v \<Rightarrow> v"
  show ?thesis
  proof (cases "g_score st ?n")
    case None
    have "{c \<in> grid_cells GRID_SIZE. g_score st' c = None} = {c \<in> grid_cells GRID_SIZE. g_score st c = None} - {?n}"
      using g' by auto
    moreover have m: "?n \<in> {c \<in> grid_cells GRID_SIZE. g_score st c = None}" using inb None by simp
    moreover have f: "finite {c \<in> grid_cells GRID_SIZE. g_score st c = None}" using finite_grid_cells by simp
    ultimately have "unseen GRID_SIZE st' < unseen GRID_SIZE st"
      unfolding unseen_def using card_Diff1_less[OF f m] by simp
    then show ?thesis by (simp add: progress_def)
  next
    case (Some gn)
    with cond have lt: "gc + 1 < gn" by simp
    have u: "unseen GRID_SIZE st' = unseen GRID_SIZE st"
    proof -
      have "{c \<in> grid_cells GRID_SIZE. g_score st' c = None} = {c \<in> grid_cells GRID_SIZE. g_score st c = None}"
        using g' Some by auto
      then show ?thesis by (simp add: unseen_def)
    qed
    have s: "g_total GRID_SIZE st = gn + (\<Sum>c \<in> grid_cells GRID_SIZE - {?n}. ?val (g_score st) c)"
      unfolding g_total_def using sum.remove[OF finite_grid_cells inb, of "?val (g_score st)"] Some
      by simp
    have s': "g_total GRID_SIZE st' = (gc + 1) + (\<Sum>c \<in> grid_cells GRID_SIZE - {?n}. ?val (g_score st') c)"
      unfolding g_total_def using sum.remove[OF finite_grid_cells inb, of "?val (g_score st')"] g'
      by simp
    have "(\<Sum>c \<in> grid_cells GRID_SIZE - {?n}. ?val (g_score st') c) = (\<Sum>c \<in> grid_cells GRID_SIZE - {?n}. ?val (g_score st) c)"
      by (rule sum.cong) (auto simp: g')
    with s s' lt have "g_total GRID_SIZE st' < g_total GRID_SIZE st" by simp
    with u show ?thesis by (simp add: progress_def)
  qed
qed

lemma expand_progress:
  "expand GRID_SIZE mz gl current ds st = Inr st' \<Longrightarrow>
     st' = st \<or> (progress GRID_SIZE st', progress GRID_SIZE st) \<in> less_than <*lex*> less_than"
proof (induction ds arbitrary: st)
  case Nil
  then show ?case by simp
next
  case (Cons d ds)
  from Cons.prems obtain st1 where r: "relax GRID_SIZE mz gl current d st = Inr st1"
    and e: "expand GRID_SIZE mz gl current ds st1 = Inr st'"
    by (auto split: sum.splits)
  have tr: "trans (less_than <*lex*> less_than :: ((nat \<times> nat) \<times> (nat \<times> nat)) set)"
    by (intro trans_lex_prod trans_less_than)
  from relax_progress[OF r] Cons.IH[OF e] show ?case
  proof (elim disjE)
    assume "(progress GRID_SIZE st1, progress GRID_SIZE st) \<in> less_than <*lex*> less_than"
      and "(progress GRID_SIZE st', progress GRID_SIZE st1) \<in> less_than <*lex*> less_than"
    with tr have "(progress GRID_SIZE st', progress GRID_SIZE st) \<in> less_than <*lex*> less_than"
      by (blast dest: transD)
    then show ?thesis ..
  qed auto
qed

termination astar_loop
proof (relation "inv_image ((less_than <*lex*> less_than) <*lex*> less_than)
         (\<lambda>(GRID_SIZE, mz, gl, st). (progress GRID_SIZE st, length (open_set st)))", goal_cases)
  case 1
  show ?case by (intro wf_inv_image wf_lex_prod wf_less_than)
next
  case (2 GRID_SIZE mz gl st x2 item rest current st1 st2)
  from 2 have pop: "rest = remove1 (Min (set (open_set st))) (open_set st)"
    by (auto simp: heappop_def)
  have "Min (set (open_set st)) \<in> set (open_set st)"
    using 2(1) by (intro Min_in) auto
  moreover have "0 < length (open_set st)" using 2(1) by simp
  ultimately have len: "length rest < length (open_set st)"
    unfolding pop by (simp add: length_remove1)
  have same: "progress GRID_SIZE st1 = progress GRID_SIZE st"
    using 2 by (simp add: progress_def unseen_def g_total_def)
  from 2 have e: "expand GRID_SIZE mz gl current offsets st1 = Inr st2" by simp
  from expand_progress[OF e]
  show ?case
  proof
    assume "st2 = st1"
    with same len 2 show ?thesis by simp
  next
    assume "(progress GRID_SIZE st2, progress GRID_SIZE st1) \<in> less_than <*lex*> less_than"
    with same show ?thesis by simp
  qed
qed

declare astar_loop.simps [simp del]

subsection \<open>The invariants are kept\<close>

lemma around_neq: "v \<in> set (around u) \<Longrightarrow> v \<noteq> u"
  by (cases u) (auto simp: around_def offsets_def)

lemma manhattan_around: "v \<in> set (around u) \<Longrightarrow> manhattan u gl \<le> 1 + manhattan v gl"
  by (auto simp: around_def offsets_def manhattan_def)

lemma manhattan_self: "manhattan c c = 0"
  by (simp add: manhattan_def)

lemma manhattan_nonneg: "0 \<le> manhattan a b"
  by (simp add: manhattan_def)

lemma adjacent_neq: "adjacent GRID_SIZE mz u v \<Longrightarrow> v \<noteq> u"
  by (simp add: adjacent_def around_neq)

text \<open>The three outcomes of one pass of the loop body.\<close>

lemma relax_cases:
  assumes "relax GRID_SIZE mz gl cur d st = Inr st'"
  defines "n \<equiv> (fst cur + fst d, snd cur + snd d)"
  shows "(st' = st \<and> \<not> free_cell GRID_SIZE mz n)
       \<or> (st' = st \<and> free_cell GRID_SIZE mz n
            \<and> (\<exists>gc gn. g_score st cur = Some gc \<and> g_score st n = Some gn \<and> gn \<le> gc + 1))
       \<or> (free_cell GRID_SIZE mz n
            \<and> (\<exists>gc. g_score st cur = Some gc
                  \<and> (case g_score st n of None \<Rightarrow> True | Some gn \<Rightarrow> gc + 1 < gn)
                  \<and> st' = improve gl cur n (gc + 1) st))"
  using assms(1) unfolding n_def relax_def Let_def free_cell_def improve_def
  by (auto split: if_splits sum.splits option.splits)

lemma improve_g_sound:
  assumes "g_sound GRID_SIZE mz start st" and "g_score st cur = Some gc" and "adjacent GRID_SIZE mz cur n"
    and "case g_score st n of None \<Rightarrow> True | Some gn \<Rightarrow> gc + 1 < gn"
  shows "g_sound GRID_SIZE mz start (improve gl cur n (gc + 1) st)" and "n \<noteq> start"
proof -
  show ns: "n \<noteq> start"
  proof
    assume "n = start"
    with assms(1,4) show False by (simp add: g_sound_def)
  qed
  have "steps GRID_SIZE mz start gc cur"
    using assms(1,2) unfolding g_sound_def by blast
  from steps_next[OF this assms(3)] have "steps GRID_SIZE mz start (Suc gc) n" .
  with assms(1) ns show "g_sound GRID_SIZE mz start (improve gl cur n (gc + 1) st)"
    by (auto simp: g_sound_def improve_def)
qed

lemma improve_parents_ok:
  assumes "parents_ok GRID_SIZE mz st" and "g_score st cur = Some gc" and "adjacent GRID_SIZE mz cur n"
    and "case g_score st n of None \<Rightarrow> True | Some gn \<Rightarrow> gc + 1 < gn"
  shows "parents_ok GRID_SIZE mz (improve gl cur n (gc + 1) st)"
  unfolding parents_ok_def
proof (intro allI impI)
  fix m p
  let ?st = "improve gl cur n (gc + 1) st"
  assume cf: "came_from ?st m = Some p"
  have cn: "cur \<noteq> n" using adjacent_neq[OF assms(3)] by simp
  show "adjacent GRID_SIZE mz p m \<and> (\<exists>gp gn. g_score ?st p = Some gp \<and> g_score ?st m = Some gn \<and> gp + 1 \<le> gn)"
  proof (cases "m = n")
    case True
    with cf have "p = cur" by (simp add: improve_def)
    with True assms(2,3) cn show ?thesis by (simp add: improve_def)
  next
    case False
    with cf have old: "came_from st m = Some p" by (simp add: improve_def)
    with assms(1) obtain gp gm where a: "adjacent GRID_SIZE mz p m" and g: "g_score st p = Some gp"
      "g_score st m = Some gm" "gp + 1 \<le> gm"
      unfolding parents_ok_def by blast
    show ?thesis
    proof (cases "p = n")
      case True
      with g assms(4) have "gc + 1 < gp" by simp
      with True False a g show ?thesis by (simp add: improve_def)
    next
      case pn: False
      with False a g show ?thesis by (simp add: improve_def)
    qed
  qed
qed

lemma improve_rooted:
  assumes "rooted start st"
  shows "rooted start (improve gl cur n t st)"
  using assms by (auto simp: rooted_def improve_def)

lemma improve_open_inv:
  assumes "open_inv start gl st" and "n \<noteq> start"
    and "case g_score st n of None \<Rightarrow> True | Some gn \<Rightarrow> t < gn"
  shows "open_inv start gl (improve gl cur n t st)"
  unfolding open_inv_def
proof (intro conjI allI impI)
  fix f m
  let ?st = "improve gl cur n t st"
  assume "(f, m) \<in> set (open_set ?st)"
  then consider "(f, m) = (int t + manhattan n gl, n)" | "(f, m) \<in> set (open_set st)"
    by (auto simp: improve_def heappush_def)
  then show "\<exists>v. g_score ?st m = Some v \<and> (m = start \<or> int v + manhattan m gl \<le> f)"
  proof cases
    case 1
    then show ?thesis by (simp add: improve_def)
  next
    case 2
    with assms(1) obtain v where v: "g_score st m = Some v" "m = start \<or> int v + manhattan m gl \<le> f"
      unfolding open_inv_def by blast
    show ?thesis
    proof (cases "m = n")
      case True
      with v assms(2,3) show ?thesis by (simp add: improve_def)
    next
      case False
      with v show ?thesis by (simp add: improve_def)
    qed
  qed
next
  let ?st = "improve gl cur n t st"
  assume "g_score ?st gl \<noteq> None"
  show "\<exists>f. (f, gl) \<in> set (open_set ?st)"
  proof (cases "gl = n")
    case True
    then show ?thesis by (auto simp: improve_def heappush_def)
  next
    case False
    with \<open>g_score ?st gl \<noteq> None\<close> have "g_score st gl \<noteq> None" by (simp add: improve_def)
    with assms(1) obtain f where "(f, gl) \<in> set (open_set st)" unfolding open_inv_def by blast
    then show ?thesis by (auto simp: improve_def heappush_def)
  qed
qed

lemma opt_inv_mono: "opt_inv GRID_SIZE mz start gl cur E st \<Longrightarrow> E \<subseteq> E' \<Longrightarrow> opt_inv GRID_SIZE mz start gl cur E' st"
  unfolding opt_inv_def by blast

lemma opt_inv_empty: "opt_inv GRID_SIZE mz start gl cur {} st \<Longrightarrow> opt_inv GRID_SIZE mz start gl cur' E st"
  unfolding opt_inv_def by blast

lemma improve_opt_inv:
  assumes "opt_inv GRID_SIZE mz start gl cur E st" and "g_score st cur = Some gc" and "adjacent GRID_SIZE mz cur n"
    and "case g_score st n of None \<Rightarrow> True | Some gn \<Rightarrow> gc + 1 < gn"
  shows "opt_inv GRID_SIZE mz start gl cur (E - {n}) (improve gl cur n (gc + 1) st)"
  unfolding opt_inv_def
proof (intro allI impI)
  fix u v
  let ?st = "improve gl cur n (gc + 1) st"
  assume a: "g_score ?st u = Some v \<and> (\<forall>k. steps GRID_SIZE mz start k u \<longrightarrow> v \<le> k)"
  show "(\<exists>f. (f, u) \<in> set (open_set ?st) \<and> f \<le> int v + manhattan u gl)
        \<or> (\<forall>w. adjacent GRID_SIZE mz u w \<longrightarrow>
              (u = cur \<and> w \<in> E - {n}) \<or> (\<exists>gw. g_score ?st w = Some gw \<and> gw \<le> v + 1))"
  proof (cases "u = n")
    case True
    with a have "v = gc + 1" by (simp add: improve_def)
    with True have "(int v + manhattan u gl, u) \<in> set (open_set ?st)"
      by (simp add: improve_def heappush_def)
    then show ?thesis by blast
  next
    case False
    with a have old: "g_score st u = Some v \<and> (\<forall>k. steps GRID_SIZE mz start k u \<longrightarrow> v \<le> k)"
      by (simp add: improve_def)
    from assms(1) old have
      "(\<exists>f. (f, u) \<in> set (open_set st) \<and> f \<le> int v + manhattan u gl)
        \<or> (\<forall>w. adjacent GRID_SIZE mz u w \<longrightarrow>
              (u = cur \<and> w \<in> E) \<or> (\<exists>gw. g_score st w = Some gw \<and> gw \<le> v + 1))"
      unfolding opt_inv_def by blast
    then show ?thesis
    proof
      assume "\<exists>f. (f, u) \<in> set (open_set st) \<and> f \<le> int v + manhattan u gl"
      then have "\<exists>f. (f, u) \<in> set (open_set ?st) \<and> f \<le> int v + manhattan u gl"
        by (auto simp: improve_def heappush_def)
      then show ?thesis ..
    next
      assume b: "\<forall>w. adjacent GRID_SIZE mz u w \<longrightarrow>
              (u = cur \<and> w \<in> E) \<or> (\<exists>gw. g_score st w = Some gw \<and> gw \<le> v + 1)"
      have "\<forall>w. adjacent GRID_SIZE mz u w \<longrightarrow>
              (u = cur \<and> w \<in> E - {n}) \<or> (\<exists>gw. g_score ?st w = Some gw \<and> gw \<le> v + 1)"
      proof (intro allI impI)
        fix w
        assume "adjacent GRID_SIZE mz u w"
        with b have c: "(u = cur \<and> w \<in> E) \<or> (\<exists>gw. g_score st w = Some gw \<and> gw \<le> v + 1)"
          by blast
        show "(u = cur \<and> w \<in> E - {n}) \<or> (\<exists>gw. g_score ?st w = Some gw \<and> gw \<le> v + 1)"
        proof (cases "w = n")
          case True
          have "gc + 1 \<le> v + 1"
            using c
          proof
            assume "u = cur \<and> w \<in> E"
            with old assms(2) show ?thesis by simp
          next
            assume "\<exists>gw. g_score st w = Some gw \<and> gw \<le> v + 1"
            with True assms(4) show ?thesis by auto
          qed
          with True show ?thesis by (simp add: improve_def)
        next
          case False
          with c show ?thesis by (auto simp: improve_def)
        qed
      qed
      then show ?thesis ..
    qed
  qed
qed

lemma relax_inv:
  assumes inv: "search_inv GRID_SIZE mz start gl cur E st"
    and r: "relax GRID_SIZE mz gl cur d st = Inr st'"
    and d: "d \<in> set offsets"
  shows "search_inv GRID_SIZE mz start gl cur (E - {(fst cur + fst d, snd cur + snd d)}) st'"
proof -
  let ?n = "(fst cur + fst d, snd cur + snd d)"
  have ar: "?n \<in> set (around cur)" using d by (auto simp: around_def)
  from inv have gs: "g_sound GRID_SIZE mz start st" and po: "parents_ok GRID_SIZE mz st" and ro: "rooted start st"
    and oi: "open_inv start gl st" and op: "opt_inv GRID_SIZE mz start gl cur E st"
    by (simp_all add: search_inv_def)
  from relax_cases[OF r] consider
    (blocked) "st' = st" "\<not> free_cell GRID_SIZE mz ?n"
    | (keep) gc gn where "st' = st" "g_score st cur = Some gc" "g_score st ?n = Some gn" "gn \<le> gc + 1"
    | (better) gc where "free_cell GRID_SIZE mz ?n" "g_score st cur = Some gc"
        "case g_score st ?n of None \<Rightarrow> True | Some gn \<Rightarrow> gc + 1 < gn"
        "st' = improve gl cur ?n (gc + 1) st"
    by blast
  then show ?thesis
  proof cases
    case blocked
    have "opt_inv GRID_SIZE mz start gl cur (E - {?n}) st"
      using op blocked(2) unfolding opt_inv_def adjacent_def by blast
    with inv blocked(1) show ?thesis by (simp add: search_inv_def)
  next
    case keep
    have "opt_inv GRID_SIZE mz start gl cur (E - {?n}) st"
      unfolding opt_inv_def
    proof (intro allI impI)
      fix u v
      assume a: "g_score st u = Some v \<and> (\<forall>k. steps GRID_SIZE mz start k u \<longrightarrow> v \<le> k)"
      with op have
        "(\<exists>f. (f, u) \<in> set (open_set st) \<and> f \<le> int v + manhattan u gl)
        \<or> (\<forall>w. adjacent GRID_SIZE mz u w \<longrightarrow>
              (u = cur \<and> w \<in> E) \<or> (\<exists>gw. g_score st w = Some gw \<and> gw \<le> v + 1))"
        unfolding opt_inv_def by blast
      moreover have "u = cur \<Longrightarrow> \<exists>gw. g_score st ?n = Some gw \<and> gw \<le> v + 1"
        using a keep by simp
      ultimately show "(\<exists>f. (f, u) \<in> set (open_set st) \<and> f \<le> int v + manhattan u gl)
        \<or> (\<forall>w. adjacent GRID_SIZE mz u w \<longrightarrow>
              (u = cur \<and> w \<in> E - {?n}) \<or> (\<exists>gw. g_score st w = Some gw \<and> gw \<le> v + 1))"
        by blast
    qed
    with inv keep(1) show ?thesis by (simp add: search_inv_def)
  next
    case better
    have adj: "adjacent GRID_SIZE mz cur ?n" using ar better(1) by (simp add: adjacent_def)
    note g1 = improve_g_sound(1)[OF gs better(2) adj better(3), of gl]
    note g2 = improve_g_sound(2)[OF gs better(2) adj better(3)]
    from g1 improve_parents_ok[OF po better(2) adj better(3), of gl]
      improve_rooted[OF ro, of gl cur ?n "gc + 1"]
      improve_open_inv[OF oi g2 better(3), of cur]
      improve_opt_inv[OF op better(2) adj better(3)]
    show ?thesis unfolding better(4) by (simp add: search_inv_def)
  qed
qed

lemma expand_inv:
  assumes "search_inv GRID_SIZE mz start gl cur E st"
    and "expand GRID_SIZE mz gl cur ds st = Inr st'"
    and "set ds \<subseteq> set offsets"
    and "E \<subseteq> (\<lambda>d. (fst cur + fst d, snd cur + snd d)) ` set ds"
  shows "search_inv GRID_SIZE mz start gl cur {} st'"
  using assms
proof (induction ds arbitrary: st E)
  case Nil
  then show ?case by simp
next
  case (Cons d ds)
  let ?n = "(fst cur + fst d, snd cur + snd d)"
  from Cons.prems(2) obtain st1 where r: "relax GRID_SIZE mz gl cur d st = Inr st1"
    and e: "expand GRID_SIZE mz gl cur ds st1 = Inr st'"
    by (auto split: sum.splits)
  from Cons.prems(3) have d: "d \<in> set offsets" and ds: "set ds \<subseteq> set offsets" by auto
  from relax_inv[OF Cons.prems(1) r d] have i1: "search_inv GRID_SIZE mz start gl cur (E - {?n}) st1" .
  have sub: "E - {?n} \<subseteq> (\<lambda>d. (fst cur + fst d, snd cur + snd d)) ` set ds"
    using Cons.prems(4) by auto
  from Cons.IH[OF i1 e ds sub] show ?case .
qed

lemma heappop_Inr:
  "h \<noteq> [] \<Longrightarrow> heappop h = Inr (Min (set h), remove1 (Min (set h)) h)"
  by (simp add: heappop_def)

lemma heappop_min:
  assumes "heappop h = Inr (item, rest)"
  shows "h \<noteq> []" and "item \<in> set h" and "rest = remove1 item h" and "\<forall>x \<in> set h. item \<le> x"
proof -
  from assms show ne: "h \<noteq> []" by (auto simp: heappop_def split: if_splits)
  with assms have i: "item = Min (set h)" and r: "rest = remove1 (Min (set h)) h"
    by (auto simp: heappop_def)
  from ne show "item \<in> set h" unfolding i by (intro Min_in) auto
  from i r show "rest = remove1 item h" by simp
  show "\<forall>x \<in> set h. item \<le> x" unfolding i by (auto intro: Min_le)
qed

lemma pop_inv:
  assumes inv: "search_inv GRID_SIZE mz start gl c {} st"
    and item: "(f0, cur) \<in> set (open_set st)"
    and ng: "cur \<noteq> gl"
  shows "search_inv GRID_SIZE mz start gl cur (set (around cur)) (st\<lparr>open_set := remove1 (f0, cur) (open_set st)\<rparr>)"
proof -
  let ?st = "st\<lparr>open_set := remove1 (f0, cur) (open_set st)\<rparr>"
  from inv have gs: "g_sound GRID_SIZE mz start st" and po: "parents_ok GRID_SIZE mz st" and ro: "rooted start st"
    and oi: "open_inv start gl st" and op: "opt_inv GRID_SIZE mz start gl c {} st"
    by (simp_all add: search_inv_def)
  have keep: "\<And>f u. (f, u) \<in> set (open_set st) \<Longrightarrow> u \<noteq> cur \<Longrightarrow> (f, u) \<in> set (open_set ?st)"
    by simp
  have sub: "\<And>x. x \<in> set (open_set ?st) \<Longrightarrow> x \<in> set (open_set st)"
    using set_remove1_subset[of "(f0, cur)" "open_set st"] by auto
  have 1: "g_sound GRID_SIZE mz start ?st" using gs by (simp add: g_sound_def)
  have 2: "parents_ok GRID_SIZE mz ?st" using po by (simp add: parents_ok_def)
  have 3: "rooted start ?st" using ro by (simp add: rooted_def)
  have 4: "open_inv start gl ?st"
    unfolding open_inv_def
  proof (intro conjI allI impI)
    fix f n
    assume "(f, n) \<in> set (open_set ?st)"
    then have "(f, n) \<in> set (open_set st)" by (rule sub)
    with oi have "\<exists>v. g_score st n = Some v \<and> (n = start \<or> int v + manhattan n gl \<le> f)"
      unfolding open_inv_def by blast
    then show "\<exists>v. g_score ?st n = Some v \<and> (n = start \<or> int v + manhattan n gl \<le> f)" by simp
  next
    assume "g_score ?st gl \<noteq> None"
    then have "g_score st gl \<noteq> None" by simp
    with oi obtain f where "(f, gl) \<in> set (open_set st)" unfolding open_inv_def by blast
    with ng have "(f, gl) \<in> set (open_set ?st)" by (intro keep) auto
    then show "\<exists>f. (f, gl) \<in> set (open_set ?st)" ..
  qed
  have 5: "opt_inv GRID_SIZE mz start gl cur (set (around cur)) ?st"
    unfolding opt_inv_def
  proof (intro allI impI)
    fix u v
    assume a: "g_score ?st u = Some v \<and> (\<forall>k. steps GRID_SIZE mz start k u \<longrightarrow> v \<le> k)"
    then have a': "g_score st u = Some v \<and> (\<forall>k. steps GRID_SIZE mz start k u \<longrightarrow> v \<le> k)" by simp
    with op have b:
        "(\<exists>f. (f, u) \<in> set (open_set st) \<and> f \<le> int v + manhattan u gl)
        \<or> (\<forall>w. adjacent GRID_SIZE mz u w \<longrightarrow> (\<exists>gw. g_score st w = Some gw \<and> gw \<le> v + 1))"
      unfolding opt_inv_def by blast
    show "(\<exists>f. (f, u) \<in> set (open_set ?st) \<and> f \<le> int v + manhattan u gl)
        \<or> (\<forall>w. adjacent GRID_SIZE mz u w \<longrightarrow>
              (u = cur \<and> w \<in> set (around cur)) \<or> (\<exists>gw. g_score ?st w = Some gw \<and> gw \<le> v + 1))"
    proof (cases "u = cur")
      case True
      then show ?thesis by (auto simp: adjacent_def)
    next
      case False
      from b show ?thesis
      proof
        assume "\<exists>f. (f, u) \<in> set (open_set st) \<and> f \<le> int v + manhattan u gl"
        then obtain f where "(f, u) \<in> set (open_set st)" "f \<le> int v + manhattan u gl" by blast
        with False keep[of f u] show ?thesis by blast
      next
        assume "\<forall>w. adjacent GRID_SIZE mz u w \<longrightarrow> (\<exists>gw. g_score st w = Some gw \<and> gw \<le> v + 1)"
        then show ?thesis by simp
      qed
    qed
  qed
  from 1 2 3 4 5 show ?thesis by (simp add: search_inv_def)
qed

text \<open>On a square grid no access to the maze fails.\<close>

lemma maze_at_square:
  assumes "square_grid GRID_SIZE mz" and "0 \<le> x" "x < GRID_SIZE" "0 \<le> y" "y < GRID_SIZE"
  shows "\<exists>v. maze_at mz x y = Inr v"
proof -
  from assms(1) have h: "int (length mz) = GRID_SIZE"
    and rows: "\<forall>row \<in> set mz. int (length row) = GRID_SIZE"
    by (simp_all add: square_grid_def)
  from h assms(4,5) have y: "nat y < length mz" by linarith
  then have "mz ! nat y \<in> set mz" by simp
  with rows have "int (length (mz ! nat y)) = GRID_SIZE" by blast
  with assms(2-5) h show ?thesis
    by (simp add: maze_at_def py_index_def)
qed

lemma relax_ok:
  assumes "square_grid GRID_SIZE mz" and "g_score st cur \<noteq> None"
  shows "\<exists>st'. relax GRID_SIZE mz gl cur d st = Inr st' \<and> g_score st' cur \<noteq> None"
proof -
  let ?n = "(fst cur + fst d, snd cur + snd d)"
  show ?thesis
  proof (cases "0 \<le> fst ?n \<and> fst ?n < GRID_SIZE \<and> 0 \<le> snd ?n \<and> snd ?n < GRID_SIZE")
    case True
    with maze_at_square[OF assms(1), of "fst ?n" "snd ?n"]
    obtain v where "maze_at mz (fst ?n) (snd ?n) = Inr v" by blast
    with True assms(2) show ?thesis
      by (auto simp: relax_def Let_def split: option.splits)
  next
    case False
    with assms(2) show ?thesis by (auto simp: relax_def Let_def)
  qed
qed

lemma expand_ok:
  assumes "square_grid GRID_SIZE mz" and "g_score st cur \<noteq> None"
  shows "\<exists>st'. expand GRID_SIZE mz gl cur ds st = Inr st'"
  using assms(2)
proof (induction ds arbitrary: st)
  case Nil
  then show ?case by simp
next
  case (Cons d ds)
  from relax_ok[OF assms(1) Cons.prems, of gl d]
  obtain st1 where "relax GRID_SIZE mz gl cur d st = Inr st1" "g_score st1 cur \<noteq> None" by blast
  with Cons.IH[of st1] show ?case by simp
qed

text \<open>The frontier lemma: a cell reachable in \<open>k\<close> steps either has a score of at most
  \<open>k\<close>, or some entry of the open set has a key of at most \<open>k\<close> plus the cell's
  heuristic.\<close>

lemma frontier:
  assumes inv: "search_inv GRID_SIZE mz start gl c0 {} st"
  shows "steps GRID_SIZE mz start k c \<Longrightarrow>
     (\<exists>v \<le> k. g_score st c = Some v)
     \<or> (\<exists>f u. (f, u) \<in> set (open_set st) \<and> f \<le> int k + manhattan c gl)"
proof (induction k arbitrary: c rule: less_induct)
  case (less k)
  from inv have gs: "g_sound GRID_SIZE mz start st" and op: "opt_inv GRID_SIZE mz start gl c0 {} st"
    by (simp_all add: search_inv_def)
  from less.prems show ?case
  proof (cases rule: steps.cases)
    case steps_start
    with gs show ?thesis by (simp add: g_sound_def)
  next
    case (steps_next j u)
    from steps_next(2) have "\<exists>d. steps GRID_SIZE mz start d u" by blast
    then obtain d where d: "steps GRID_SIZE mz start d u" "\<forall>m. steps GRID_SIZE mz start m u \<longrightarrow> d \<le> m"
      using exists_least_iff[of "\<lambda>d. steps GRID_SIZE mz start d u"]
      by (metis not_le_imp_less)
    from d(2) steps_next(2) have dj: "d \<le> j" by blast
    with steps_next(1) have dk: "d < k" by simp
    have h: "manhattan u gl \<le> 1 + manhattan c gl"
      using steps_next(3) by (intro manhattan_around) (simp add: adjacent_def)
    from less.IH[OF dk d(1)] show ?thesis
    proof
      assume "\<exists>v \<le> d. g_score st u = Some v"
      then obtain v where v: "v \<le> d" "g_score st u = Some v" by blast
      with gs have "steps GRID_SIZE mz start v u" unfolding g_sound_def by blast
      with d(2) v(1) have "v = d" by (simp add: antisym)
      with v d(2) op have
        "(\<exists>f. (f, u) \<in> set (open_set st) \<and> f \<le> int d + manhattan u gl)
        \<or> (\<forall>w. adjacent GRID_SIZE mz u w \<longrightarrow> (\<exists>gw. g_score st w = Some gw \<and> gw \<le> d + 1))"
        unfolding opt_inv_def by blast
      then show ?thesis
      proof
        assume "\<exists>f. (f, u) \<in> set (open_set st) \<and> f \<le> int d + manhattan u gl"
        then obtain f where "(f, u) \<in> set (open_set st)" "f \<le> int d + manhattan u gl" by blast
        with h dj steps_next(1) have "(f, u) \<in> set (open_set st) \<and> f \<le> int k + manhattan c gl"
          by simp
        then show ?thesis by blast
      next
        assume "\<forall>w. adjacent GRID_SIZE mz u w \<longrightarrow> (\<exists>gw. g_score st w = Some gw \<and> gw \<le> d + 1)"
        with steps_next(3) obtain gw where "g_score st c = Some gw" "gw \<le> d + 1" by blast
        with dj steps_next(1) show ?thesis by simp
      qed
    next
      assume "\<exists>f u'. (f, u') \<in> set (open_set st) \<and> f \<le> int d + manhattan u gl"
      then obtain f u' where "(f, u') \<in> set (open_set st)" "f \<le> int d + manhattan u gl" by blast
      with h dj steps_next(1) have "(f, u') \<in> set (open_set st) \<and> f \<le> int k + manhattan c gl"
        by simp
      then show ?thesis by blast
    qed
  qed
qed

text \<open>When the goal is popped, its score is the least number of steps.\<close>

lemma goal_pop_optimal:
  assumes inv: "search_inv GRID_SIZE mz start gl c0 {} st"
    and pop: "heappop (open_set st) = Inr ((f0, gl), rest)"
  shows "\<exists>v. g_score st gl = Some v \<and> (\<forall>k. steps GRID_SIZE mz start k gl \<longrightarrow> v \<le> k)"
proof -
  from inv have gs: "g_sound GRID_SIZE mz start st" and oi: "open_inv start gl st"
    by (simp_all add: search_inv_def)
  note m = heappop_min[OF pop]
  from oi m(2) obtain v where v: "g_score st gl = Some v" "gl = start \<or> int v + manhattan gl gl \<le> f0"
    unfolding open_inv_def by blast
  have "\<forall>k. steps GRID_SIZE mz start k gl \<longrightarrow> v \<le> k"
  proof (intro allI impI)
    fix k
    assume k: "steps GRID_SIZE mz start k gl"
    show "v \<le> k"
    proof (cases "gl = start")
      case True
      with gs v(1) show ?thesis by (simp add: g_sound_def)
    next
      case False
      with v(2) have vf: "int v \<le> f0" by (simp add: manhattan_self)
      from frontier[OF inv k] show ?thesis
      proof
        assume "\<exists>v' \<le> k. g_score st gl = Some v'"
        with v(1) show ?thesis by simp
      next
        assume "\<exists>f u. (f, u) \<in> set (open_set st) \<and> f \<le> int k + manhattan gl gl"
        then obtain f u where fu: "(f, u) \<in> set (open_set st)" "f \<le> int k" by (auto simp: manhattan_self)
        with m(4) have "(f0, gl) \<le> (f, u)" by blast
        then have "f0 \<le> f" by (auto simp: less_eq_prod_def)
        with vf fu(2) show ?thesis by simp
      qed
    qed
  qed
  with v(1) show ?thesis by blast
qed

lemma init_inv: "search_inv GRID_SIZE mz start gl c {} (astar_init start gl)"
proof -
  let ?st = "astar_init start gl"
  have f: "g_score ?st = [start \<mapsto> 0]" "open_set ?st = [(0, start)]" "came_from ?st = Map.empty"
    by (simp_all add: astar_init_def heappush_def)
  have g: "n = start \<and> v = 0" if "g_score ?st n = Some v" for n v
    using that unfolding f by (simp split: if_splits)
  have o: "(0, start) \<in> set (open_set ?st)" unfolding f by simp
  have 1: "g_sound GRID_SIZE mz start ?st"
    unfolding g_sound_def
  proof (intro conjI allI impI)
    show "g_score ?st start = Some 0" unfolding f by simp
  next
    fix n v
    assume "g_score ?st n = Some v"
    from g[OF this] show "steps GRID_SIZE mz start v n" by (simp add: steps_start)
  qed
  have 2: "parents_ok GRID_SIZE mz ?st" unfolding parents_ok_def f by simp
  have 3: "rooted start ?st" unfolding rooted_def using g by blast
  have 4: "open_inv start gl ?st"
    unfolding open_inv_def
  proof (intro conjI allI impI)
    fix f' n assume "(f', n) \<in> set (open_set ?st)"
    then have "n = start" unfolding f by simp
    then show "\<exists>v. g_score ?st n = Some v \<and> (n = start \<or> int v + manhattan n gl \<le> f')"
      unfolding f by simp
  next
    assume "g_score ?st gl \<noteq> None"
    then obtain v where "g_score ?st gl = Some v" by blast
    from g[OF this] have "gl = start" by simp
    with o show "\<exists>f. (f, gl) \<in> set (open_set ?st)" by blast
  qed
  have 5: "opt_inv GRID_SIZE mz start gl c {} ?st"
    unfolding opt_inv_def
  proof (intro allI impI)
    fix u v
    assume a: "g_score ?st u = Some v \<and> (\<forall>k. steps GRID_SIZE mz start k u \<longrightarrow> v \<le> k)"
    then have "g_score ?st u = Some v" by simp
    from g[OF this] have "u = start" by simp
    moreover have "0 \<le> int v + manhattan u gl" using manhattan_nonneg[of u gl] by simp
    ultimately have "(0, u) \<in> set (open_set ?st) \<and> 0 \<le> int v + manhattan u gl" using o by simp
    then show "(\<exists>f. (f, u) \<in> set (open_set ?st) \<and> f \<le> int v + manhattan u gl)
        \<or> (\<forall>w. adjacent GRID_SIZE mz u w \<longrightarrow>
              (u = c \<and> w \<in> {}) \<or> (\<exists>gw. g_score ?st w = Some gw \<and> gw \<le> v + 1))"
      by blast
  qed
  from 1 2 3 4 5 show ?thesis by (simp add: search_inv_def)
qed

lemma around_offsets: "set (around cur) = (\<lambda>d. (fst cur + fst d, snd cur + snd d)) ` set offsets"
  by (simp add: around_def)

text \<open>One pass of the main loop from a state that satisfies the invariant: the popped item,
  and the invariant of the state after the expansion.\<close>

lemma loop_step_inv:
  assumes inv: "search_inv GRID_SIZE mz start gl c {} st"
    and pop: "heappop (open_set st) = Inr (item, rest)"
    and ng: "snd item \<noteq> gl"
    and ex: "expand GRID_SIZE mz gl (snd item) offsets (st\<lparr>open_set := rest\<rparr>) = Inr st2"
  shows "search_inv GRID_SIZE mz start gl (snd item) {} st2"
proof -
  note m = heappop_min[OF pop]
  obtain f0 cur where it: "item = (f0, cur)" by (cases item)
  from pop_inv[OF inv, of f0 cur] m(2) ng it
  have "search_inv GRID_SIZE mz start gl cur (set (around cur)) (st\<lparr>open_set := rest\<rparr>)"
    using m(3) by simp
  from expand_inv[OF this _ subset_refl] ex it show ?thesis
    by (simp add: around_offsets)
qed

lemma open_inv_score:
  assumes "open_inv start gl st" and "item \<in> set (open_set st)"
  shows "\<exists>v. g_score st (snd item) = Some v"
proof -
  obtain f n where it: "item = (f, n)" by (cases item)
  with assms(2) have "(f, n) \<in> set (open_set st)" by simp
  with assms(1) obtain v where "g_score st n = Some v" unfolding open_inv_def by blast
  with it show ?thesis by simp
qed

lemma astar_loop_empty: "open_set st = [] \<Longrightarrow> astar_loop GRID_SIZE mz gl st = Inr None"
  by (subst astar_loop.simps) simp

lemma astar_loop_unfold:
  assumes "heappop (open_set st) = Inr (item, rest)"
  shows "astar_loop GRID_SIZE mz gl st =
     (if snd item = gl then Inr (Some (st\<lparr>open_set := rest\<rparr>))
      else case expand GRID_SIZE mz gl (snd item) offsets (st\<lparr>open_set := rest\<rparr>) of
             Inl e \<Rightarrow> Inl e
           | Inr st2 \<Rightarrow> astar_loop GRID_SIZE mz gl st2)"
proof -
  from assms have "open_set st \<noteq> []" by (auto simp: heappop_def split: if_splits)
  with assms show ?thesis
    by (subst astar_loop.simps) (simp add: Let_def)
qed

lemma frontier_nonempty:
  assumes "search_inv GRID_SIZE mz start gl c {} st" and "steps GRID_SIZE mz start k gl"
  shows "open_set st \<noteq> []"
proof -
  from assms(1) have oi: "open_inv start gl st" by (simp add: search_inv_def)
  from frontier[OF assms] show ?thesis
  proof
    assume "\<exists>v \<le> k. g_score st gl = Some v"
    then have "g_score st gl \<noteq> None" by auto
    with oi obtain f where "(f, gl) \<in> set (open_set st)" unfolding open_inv_def by blast
    then show ?thesis by auto
  next
    assume "\<exists>f u. (f, u) \<in> set (open_set st) \<and> f \<le> int k + manhattan gl gl"
    then show ?thesis by auto
  qed
qed

lemma astar_loop_found:
  "search_inv GRID_SIZE mz start gl c {} st \<Longrightarrow> astar_loop GRID_SIZE mz gl st = Inr (Some st') \<Longrightarrow>
     g_sound GRID_SIZE mz start st' \<and> parents_ok GRID_SIZE mz st' \<and> rooted start st'
     \<and> (\<exists>v. g_score st' gl = Some v \<and> (\<forall>k. steps GRID_SIZE mz start k gl \<longrightarrow> v \<le> k))"
proof (induction GRID_SIZE mz gl st arbitrary: c rule: astar_loop.induct)
  case (1 GRID_SIZE mz gl st)
  have ne: "open_set st \<noteq> []"
  proof
    assume "open_set st = []"
    from astar_loop_empty[OF this, of GRID_SIZE mz gl] "1.prems"(2) show False by simp
  qed
  then obtain item rest where pop: "heappop (open_set st) = Inr (item, rest)"
    by (simp add: heappop_def)
  show ?case
  proof (cases "snd item = gl")
    case True
    with "1.prems"(2) astar_loop_unfold[OF pop, of GRID_SIZE mz gl] have st': "st' = st\<lparr>open_set := rest\<rparr>"
      by simp
    obtain f0 where it: "item = (f0, gl)" using True by (cases item) auto
    from goal_pop_optimal[OF "1.prems"(1) pop[unfolded it]]
    have "\<exists>v. g_score st gl = Some v \<and> (\<forall>k. steps GRID_SIZE mz start k gl \<longrightarrow> v \<le> k)" .
    with "1.prems"(1) show ?thesis
      unfolding st' by (simp add: search_inv_def g_sound_def parents_ok_def rooted_def)
  next
    case False
    from astar_loop_unfold[OF pop, of GRID_SIZE mz gl] False "1.prems"(2)
    have u: "(case expand GRID_SIZE mz gl (snd item) offsets (st\<lparr>open_set := rest\<rparr>) of
             Inl e \<Rightarrow> Inl e
           | Inr st2 \<Rightarrow> astar_loop GRID_SIZE mz gl st2) = Inr (Some st')" by simp
    then obtain st2 where
      ex: "expand GRID_SIZE mz gl (snd item) offsets (st\<lparr>open_set := rest\<rparr>) = Inr st2"
      and rec: "astar_loop GRID_SIZE mz gl st2 = Inr (Some st')"
      by (cases "expand GRID_SIZE mz gl (snd item) offsets (st\<lparr>open_set := rest\<rparr>)") auto
    from loop_step_inv[OF "1.prems"(1) pop False ex]
    have inv2: "search_inv GRID_SIZE mz start gl (snd item) {} st2" .
    from "1.IH"[OF ne pop refl refl refl False ex inv2 rec] show ?thesis .
  qed
qed

lemma astar_loop_finds:
  "search_inv GRID_SIZE mz start gl c {} st \<Longrightarrow> square_grid GRID_SIZE mz \<Longrightarrow> steps GRID_SIZE mz start k gl \<Longrightarrow>
     \<exists>st'. astar_loop GRID_SIZE mz gl st = Inr (Some st')"
proof (induction GRID_SIZE mz gl st arbitrary: c rule: astar_loop.induct)
  case (1 GRID_SIZE mz gl st)
  from "1.prems"(1) have oi: "open_inv start gl st" by (simp add: search_inv_def)
  have ne: "open_set st \<noteq> []"
    using frontier_nonempty[OF "1.prems"(1,3)] .
  then obtain item rest where pop: "heappop (open_set st) = Inr (item, rest)"
    by (simp add: heappop_def)
  show ?case
  proof (cases "snd item = gl")
    case True
    with astar_loop_unfold[OF pop, of GRID_SIZE mz gl] show ?thesis
      by simp
  next
    case False
    from open_inv_score[OF oi heappop_min(2)[OF pop]] have "g_score st (snd item) \<noteq> None"
      by auto
    then have "g_score (st\<lparr>open_set := rest\<rparr>) (snd item) \<noteq> None" by simp
    from expand_ok[OF "1.prems"(2) this, of gl offsets]
    obtain st2 where ex: "expand GRID_SIZE mz gl (snd item) offsets (st\<lparr>open_set := rest\<rparr>) = Inr st2"
      by blast
    from loop_step_inv[OF "1.prems"(1) pop False ex]
    have inv2: "search_inv GRID_SIZE mz start gl (snd item) {} st2" .
    from "1.IH"[OF ne pop refl refl refl False ex inv2 "1.prems"(2,3)]
    obtain st' where "astar_loop GRID_SIZE mz gl st2 = Inr (Some st')" by blast
    with False ex astar_loop_unfold[OF pop, of GRID_SIZE mz gl] show ?thesis
      by simp
  qed
qed

lemma astar_loop_exhausts:
  "search_inv GRID_SIZE mz start gl c {} st \<Longrightarrow> square_grid GRID_SIZE mz \<Longrightarrow> \<forall>k. \<not> steps GRID_SIZE mz start k gl \<Longrightarrow>
     astar_loop GRID_SIZE mz gl st = Inr None"
proof (induction GRID_SIZE mz gl st arbitrary: c rule: astar_loop.induct)
  case (1 GRID_SIZE mz gl st)
  from "1.prems"(1) have oi: "open_inv start gl st" and gs: "g_sound GRID_SIZE mz start st"
    by (simp_all add: search_inv_def)
  show ?case
  proof (cases "open_set st = []")
    case True
    then show ?thesis by (rule astar_loop_empty)
  next
    case ne: False
    then obtain item rest where pop: "heappop (open_set st) = Inr (item, rest)"
      by (simp add: heappop_def)
    from open_inv_score[OF oi heappop_min(2)[OF pop]] obtain v where v: "g_score st (snd item) = Some v"
      by blast
    with gs have "steps GRID_SIZE mz start v (snd item)" unfolding g_sound_def by blast
    with "1.prems"(3) have False: "snd item \<noteq> gl" by blast
    from v have "g_score (st\<lparr>open_set := rest\<rparr>) (snd item) \<noteq> None" by simp
    from expand_ok[OF "1.prems"(2) this, of gl offsets]
    obtain st2 where ex: "expand GRID_SIZE mz gl (snd item) offsets (st\<lparr>open_set := rest\<rparr>) = Inr st2"
      by blast
    from loop_step_inv[OF "1.prems"(1) pop False ex]
    have inv2: "search_inv GRID_SIZE mz start gl (snd item) {} st2" .
    from "1.IH"[OF ne pop refl refl refl False ex inv2 "1.prems"(2,3)]
    have "astar_loop GRID_SIZE mz gl st2 = Inr None" .
    with False ex astar_loop_unfold[OF pop, of GRID_SIZE mz gl] show ?thesis
      by simp
  qed
qed

lemma walk_snoc: "walk GRID_SIZE mz (p @ [v]) \<longleftrightarrow> p = [] \<or> (walk GRID_SIZE mz p \<and> adjacent GRID_SIZE mz (last p) v)"
  by (induction GRID_SIZE mz p rule: walk.induct) auto

lemma walk_nonempty: "walk GRID_SIZE mz p \<Longrightarrow> p \<noteq> []"
  by auto

lemma walk_steps: "walk GRID_SIZE mz p \<Longrightarrow> steps GRID_SIZE mz (hd p) (length p - 1) (last p)"
proof (induction p rule: rev_induct)
  case Nil
  then show ?case by simp
next
  case (snoc v p)
  show ?case
  proof (cases "p = []")
    case True
    then show ?thesis by (simp add: steps_start)
  next
    case False
    with snoc.prems have w: "walk GRID_SIZE mz p" and a: "adjacent GRID_SIZE mz (last p) v"
      by (simp_all add: walk_snoc)
    from snoc.IH[OF w] have "steps GRID_SIZE mz (hd p) (length p - 1) (last p)" .
    from steps_next[OF this a] False show ?thesis by simp
  qed
qed

lemma path_between_steps:
  "path_between GRID_SIZE mz start gl p \<Longrightarrow> steps GRID_SIZE mz start (length p - 1) gl"
  using walk_steps[of GRID_SIZE mz p] by (auto simp: path_between_def)

text \<open>Following \<open>came_from\<close> back from a scored cell ends at the start, after at most as
  many cells as the score.\<close>

lemma reconstruct_path_ok:
  assumes gs: "g_sound GRID_SIZE mz start st" and po: "parents_ok GRID_SIZE mz st" and ro: "rooted start st"
  shows "g_score st c = Some v \<Longrightarrow>
     \<exists>p. reconstruct_path (came_from st) c acc = Some (acc @ p) \<and> length p \<le> v
          \<and> walk GRID_SIZE mz (start # rev p) \<and> last (start # rev p) = c"
proof (induction v arbitrary: c acc rule: less_induct)
  case (less v)
  show ?case
  proof (cases "came_from st c")
    case None
    with ro less.prems have "c = start" unfolding rooted_def by blast
    with None show ?thesis
      by (subst reconstruct_path.simps) simp
  next
    case (Some prev)
    with po obtain gp gn where a: "adjacent GRID_SIZE mz prev c"
      and g: "g_score st prev = Some gp" "g_score st c = Some gn" "gp + 1 \<le> gn"
      unfolding parents_ok_def by blast
    from g(2,3) less.prems have lt: "gp < v" by simp
    from less.IH[OF lt g(1), of "acc @ [c]"] obtain p where
      p: "reconstruct_path (came_from st) prev (acc @ [c]) = Some ((acc @ [c]) @ p)"
        "length p \<le> gp" "walk GRID_SIZE mz (start # rev p)" "last (start # rev p) = prev"
      by blast
    have w: "walk GRID_SIZE mz (start # rev (c # p))"
      using walk_snoc[of GRID_SIZE mz "start # rev p" c] p(3,4) a by simp
    from Some p(1) have "reconstruct_path (came_from st) c acc = Some (acc @ (c # p))"
      by (subst reconstruct_path.simps) simp
    moreover have "length (c # p) \<le> v" using p(2) lt by simp
    moreover have "last (start # rev (c # p)) = c" by simp
    ultimately show ?thesis using w by blast
  qed
qed

text \<open>What \<open>astar\<close> returns when the loop has found the goal.\<close>

lemma astar_found:
  assumes "astar_loop GRID_SIZE mz gl (astar_init start gl) = Inr (Some st)"
  shows "\<exists>p v. astar GRID_SIZE mz start gl = Some (Inr p) \<and> path_between GRID_SIZE mz start gl p
           \<and> g_score st gl = Some v \<and> length p \<le> Suc v
           \<and> (\<forall>k. steps GRID_SIZE mz start k gl \<longrightarrow> v \<le> k)"
proof -
  from astar_loop_found[OF init_inv assms] obtain v where
    gs: "g_sound GRID_SIZE mz start st" and po: "parents_ok GRID_SIZE mz st" and ro: "rooted start st"
    and v: "g_score st gl = Some v" "\<forall>k. steps GRID_SIZE mz start k gl \<longrightarrow> v \<le> k"
    by blast
  from reconstruct_path_ok[OF gs po ro v(1), of "[]"] obtain p where
    p: "reconstruct_path (came_from st) gl [] = Some p" "length p \<le> v"
       "walk GRID_SIZE mz (start # rev p)" "last (start # rev p) = gl"
    by auto
  from assms p(1) have "astar GRID_SIZE mz start gl = Some (Inr (start # rev p))"
    by (simp add: astar_def)
  moreover have "path_between GRID_SIZE mz start gl (start # rev p)"
    using p(3,4) by (simp add: path_between_def)
  moreover have "length (start # rev p) \<le> Suc v" using p(2) by simp
  ultimately show ?thesis using v by blast
qed

lemma astar_shortest:
  assumes sq: "square_grid GRID_SIZE mz" and q: "path_between GRID_SIZE mz start gl q"
  shows "\<exists>p. astar GRID_SIZE mz start gl = Some (Inr p) \<and> path_between GRID_SIZE mz start gl p
           \<and> (\<forall>q'. path_between GRID_SIZE mz start gl q' \<longrightarrow> length p \<le> length q')"
proof -
  from astar_loop_finds[OF init_inv sq path_between_steps[OF q]]
  obtain st where "astar_loop GRID_SIZE mz gl (astar_init start gl) = Inr (Some st)" by blast
  from astar_found[OF this] obtain p v where
    p: "astar GRID_SIZE mz start gl = Some (Inr p)" "path_between GRID_SIZE mz start gl p" "length p \<le> Suc v"
    and v: "\<forall>k. steps GRID_SIZE mz start k gl \<longrightarrow> v \<le> k"
    by blast
  have "length p \<le> length q'" if "path_between GRID_SIZE mz start gl q'" for q'
  proof -
    from that have "q' \<noteq> []" by (auto simp: path_between_def)
    moreover from path_between_steps[OF that] v have "v \<le> length q' - 1" by blast
    ultimately show ?thesis using p(3) by (cases q') auto
  qed
  with p show ?thesis by blast
qed

lemma astar_not_found:
  assumes sq: "square_grid GRID_SIZE mz" and no: "\<not> (\<exists>q. path_between GRID_SIZE mz start gl q)"
  shows "astar GRID_SIZE mz start gl = Some (Inr [])"
proof -
  have "\<not> steps GRID_SIZE mz start k gl" for k
  proof
    assume "steps GRID_SIZE mz start k gl"
    then have "\<exists>p. path_between GRID_SIZE mz start gl p \<and> length p = Suc k"
    proof (induction rule: steps.induct)
      case steps_start
      have "path_between GRID_SIZE mz start start [start]" by (simp add: path_between_def)
      then show ?case by auto
    next
      case (steps_next k u v)
      then obtain p where p: "path_between GRID_SIZE mz start u p" "length p = Suc k" by blast
      then have "p \<noteq> []" by auto
      with p(1) steps_next(2) have "path_between GRID_SIZE mz start v (p @ [v])"
        by (auto simp: path_between_def walk_snoc)
      with p(2) show ?case by auto
    qed
    with no show False by blast
  qed
  then have "\<forall>k. \<not> steps GRID_SIZE mz start k gl" by blast
  from astar_loop_exhausts[OF init_inv sq this]
  show ?thesis by (simp add: astar_def)
qed

lemma astar_path_ends:
  assumes "astar GRID_SIZE mz start gl = Some (Inr p)" and "p \<noteq> []"
  shows "hd p = start \<and> last p = gl \<and> walk GRID_SIZE mz p"
proof -
  from assms obtain st where st: "astar_loop GRID_SIZE mz gl (astar_init start gl) = Inr (Some st)"
    by (auto simp: astar_def split: sum.splits option.splits)
  from astar_found[OF st] assms(1) show ?thesis
    by (auto simp: path_between_def)
qed

subsection \<open>Shortest paths\<close>

text \<open>On a grid of \<open>GRID_SIZE\<close> rows of \<open>GRID_SIZE\<close> cells, the cells the search may enter are
  the open cells of the grid, and its walks are the paths of the grid.\<close>

lemma free_cell_grid_open:
  assumes "square_grid GRID_SIZE mz"
  shows "free_cell GRID_SIZE mz c = grid_open mz c"
proof
  assume "free_cell GRID_SIZE mz c"
  then show "grid_open mz c" by (simp add: free_cell_def grid_open_def)
next
  assume g: "grid_open mz c"
  from assms have h: "int (length mz) = GRID_SIZE"
    and rows: "\<forall>row \<in> set mz. int (length row) = GRID_SIZE"
    by (simp_all add: square_grid_def)
  from g have x: "0 \<le> fst c" and y: "0 \<le> snd c" and m: "maze_at mz (fst c) (snd c) = Inr 0"
    by (simp_all add: grid_open_def)
  have yl: "snd c < int (length mz)"
  proof (rule ccontr)
    assume "\<not> snd c < int (length mz)"
    with y m show False by (simp add: maze_at_def py_index_def)
  qed
  with y have "mz ! nat (snd c) \<in> set mz" by simp
  with rows have rl: "int (length (mz ! nat (snd c))) = GRID_SIZE" by blast
  have xl: "fst c < GRID_SIZE"
  proof (rule ccontr)
    assume "\<not> fst c < GRID_SIZE"
    with x y yl m rl show False by (simp add: maze_at_def py_index_def)
  qed
  with x y yl h m show "free_cell GRID_SIZE mz c" by (simp add: free_cell_def)
qed

lemma walk_grid_walk:
  assumes "square_grid GRID_SIZE mz"
  shows "walk GRID_SIZE mz p = grid_walk mz p"
  using assms
  by (induction mz p rule: grid_walk.induct)
    (simp_all add: adjacent_def free_cell_grid_open)

lemma path_between_grid_path:
  "square_grid GRID_SIZE mz \<Longrightarrow> path_between GRID_SIZE mz start gl p = grid_path mz start gl p"
  by (simp add: path_between_def grid_path_def walk_grid_walk)

lemma Game_GRID_SIZE_10: "Game_GRID_SIZE = 10"
  by (simp add: Game_GRID_SIZE_def Game_maze_def)

lemma square_Game: "square_grid Game_GRID_SIZE Game_maze"
  by (simp add: square_grid_def Game_GRID_SIZE_def Game_maze_def)

lemma Game_route_path: "grid_path Game_maze (0, 0) (9, 9) Game_route"
  by code_simp

lemma astar_Game: "astar Game_GRID_SIZE Game_maze (0, 0) (9, 9) = Some (Inr Game_route)"
  by code_simp

lemma Game_route_length: "length Game_route = 27"
  by (simp add: Game_route_def)

lemma square_wall3: "square_grid 3 wall3"
  by (simp add: square_grid_def wall3_def)

lemma square_wall10: "square_grid Game_GRID_SIZE wall10"
  by (simp add: square_grid_def wall10_def Game_GRID_SIZE_10)

text \<open>In the two grids with a wall in the second column, a walk from the first column stays
  there.\<close>

lemma wall3_adjacent: "adjacent 3 wall3 u v \<Longrightarrow> fst u = 0 \<Longrightarrow> fst v = 0"
proof -
  assume a: "adjacent 3 wall3 u v" and u: "fst u = 0"
  from a have f: "free_cell 3 wall3 v" and ar: "v \<in> set (around u)"
    by (simp_all add: adjacent_def)
  from f have b: "0 \<le> fst v" "0 \<le> snd v" "snd v < 3"
    and m: "maze_at wall3 (fst v) (snd v) = Inr 0"
    by (simp_all add: free_cell_def)
  from ar u b(1) have "fst v = 0 \<or> fst v = 1"
    by (auto simp: around_def offsets_def)
  moreover have "fst v \<noteq> 1"
  proof
    assume v1: "fst v = 1"
    from b(2,3) have "snd v = 0 \<or> snd v = 1 \<or> snd v = 2" by arith
    with m v1 show False
      by (auto simp: maze_at_def py_index_def wall3_def)
  qed
  ultimately show ?thesis by simp
qed

lemma wall3_steps: "steps 3 wall3 (0, 0) k c \<Longrightarrow> fst c = 0"
  by (induction rule: steps.induct) (auto dest: wall3_adjacent)

lemma wall3_no_path: "\<not> (\<exists>q. grid_path wall3 (0, 0) (2, 2) q)"
proof
  assume "\<exists>q. grid_path wall3 (0, 0) (2, 2) q"
  then obtain q where "grid_path wall3 (0, 0) (2, 2) q" ..
  then have "path_between 3 wall3 (0, 0) (2, 2) q"
    by (simp add: path_between_grid_path[OF square_wall3])
  from wall3_steps[OF path_between_steps[OF this]] show False by simp
qed

lemma wall10_adjacent: "adjacent 10 wall10 u v \<Longrightarrow> fst u = 0 \<Longrightarrow> fst v = 0"
proof -
  assume a: "adjacent 10 wall10 u v" and u: "fst u = 0"
  from a have f: "free_cell 10 wall10 v" and ar: "v \<in> set (around u)"
    by (simp_all add: adjacent_def)
  from f have b: "0 \<le> fst v" "0 \<le> snd v" "snd v < 10"
    and m: "maze_at wall10 (fst v) (snd v) = Inr 0"
    by (simp_all add: free_cell_def)
  from ar u b(1) have "fst v = 0 \<or> fst v = 1"
    by (auto simp: around_def offsets_def)
  moreover have "fst v \<noteq> 1"
  proof
    assume v1: "fst v = 1"
    from b(2,3) have "nat (snd v) < 10" by simp
    with m v1 b(2,3) show False
      by (simp add: maze_at_def py_index_def wall10_def)
  qed
  ultimately show ?thesis by simp
qed

lemma wall10_steps: "steps 10 wall10 (0, 0) k c \<Longrightarrow> fst c = 0"
  by (induction rule: steps.induct) (auto dest: wall10_adjacent)

lemma wall10_no_path: "\<not> (\<exists>q. grid_path wall10 (0, 0) (9, 9) q)"
proof
  assume "\<exists>q. grid_path wall10 (0, 0) (9, 9) q"
  then obtain q where "grid_path wall10 (0, 0) (9, 9) q" ..
  then have "path_between 10 wall10 (0, 0) (9, 9) q"
    using path_between_grid_path[OF square_wall10] by (simp add: Game_GRID_SIZE_10)
  from wall10_steps[OF path_between_steps[OF this]] show False by simp
qed

lemma tall_grid_no_path: "\<not> (\<exists>p. grid_path tall_grid (0, 0) (0, 2) p)"
proof
  assume "\<exists>p. grid_path tall_grid (0, 0) (0, 2) p"
  then obtain p where w: "grid_walk tall_grid p" and h: "hd p = (0, 0)" and l: "last p = (0, 2)"
    by (auto simp: grid_path_def)
  show False
  proof (cases p)
    case Nil
    with w show False by simp
  next
    case (Cons u rest)
    show False
    proof (cases rest)
      case Nil
      with Cons h l show False by simp
    next
      case (Cons v rest')
      with \<open>p = u # rest\<close> w h have "v \<in> set (around (0, 0))" and "grid_open tall_grid v"
        by simp_all
      then show False
        by (auto simp: around_def offsets_def grid_open_def tall_grid_def maze_at_def py_index_def)
    qed
  qed
qed

text \<open>
  Claim C1, as stated, fails. \<open>astar\<close> bounds both coordinates of a neighbour by the module
  global \<open>GRID_SIZE\<close>, not by the size of the grid it is given. With the global of \<^verbatim>\<open>Game.py\<close>
  (10) and the grid of 3 rows of 3 open cells, (0,0) and (2,2) are joined by a path, and
  \<open>astar\<close> raises \<open>IndexError\<close> when it reads \<open>maze[3]\<close>. Nor is it enough that the global is
  the number of rows of the grid: with one row of three open cells and \<open>GRID_SIZE = 1\<close>,
  (0,0) and (2,0) are joined by a path, and \<open>astar\<close> returns the empty list, because the
  neighbour (1,0) fails \<open>1 < GRID_SIZE\<close>.
\<close>

theorem astar_misses_path:
  "grid_path open3 (0, 0) (2, 2) [(0, 0), (1, 0), (2, 0), (2, 1), (2, 2)]
   \<and> astar Game_GRID_SIZE open3 (0, 0) (2, 2) = Some (Inl IndexError)
   \<and> grid_path wide_grid (0, 0) (2, 0) [(0, 0), (1, 0), (2, 0)]
   \<and> astar (int (length wide_grid)) wide_grid (0, 0) (2, 0) = Some (Inr [])"
proof (intro conjI)
  show "grid_path open3 (0, 0) (2, 2) [(0, 0), (1, 0), (2, 0), (2, 1), (2, 2)]"
    by code_simp
  show "astar Game_GRID_SIZE open3 (0, 0) (2, 2) = Some (Inl IndexError)"
    by code_simp
  show "grid_path wide_grid (0, 0) (2, 0) [(0, 0), (1, 0), (2, 0)]"
    by code_simp
  show "astar (int (length wide_grid)) wide_grid (0, 0) (2, 0) = Some (Inr [])"
    by code_simp
qed

text \<open>
  Claim C1, amended. For every grid of \<open>GRID_SIZE\<close> rows of \<open>GRID_SIZE\<close> cells, where
  \<open>GRID_SIZE\<close> is the value of the module global that bounds both coordinates in \<open>astar\<close>
  (10 in the four modules), and every start and goal joined by a path of open cells of the
  grid, \<open>astar\<close> returns a non-empty path from the start to the goal over open cells whose
  number of steps (its length less one, as it holds the start) is the shortest-path distance
  between them in the 4-connected graph of the grid.
\<close>

theorem astar_optimal:
  assumes "square_grid GRID_SIZE mz" and "grid_path mz start gl q"
  shows "\<exists>p. astar GRID_SIZE mz start gl = Some (Inr p) \<and> p \<noteq> [] \<and> grid_path mz start gl p
           \<and> (\<forall>q'. grid_path mz start gl q' \<longrightarrow> length p \<le> length q')
           \<and> length p - 1 = shortest_distance mz start gl"
proof -
  note eq = path_between_grid_path[OF assms(1)]
  from assms(2) have "path_between GRID_SIZE mz start gl q" by (simp add: eq)
  from astar_shortest[OF assms(1) this] obtain p where
    p: "astar GRID_SIZE mz start gl = Some (Inr p)" "grid_path mz start gl p"
      "\<forall>q'. grid_path mz start gl q' \<longrightarrow> length p \<le> length q'"
    unfolding eq by blast
  from p(2) have ne: "p \<noteq> []" by (auto simp: grid_path_def)
  then have len: "length p = Suc (length p - 1)" by simp
  have "shortest_distance mz start gl = length p - 1"
    unfolding shortest_distance_def
  proof (rule Least_equality)
    from p(2) len show "\<exists>q. grid_path mz start gl q \<and> length q = Suc (length p - 1)" by blast
  next
    fix y
    assume "\<exists>q. grid_path mz start gl q \<and> length q = Suc y"
    then obtain q' where "grid_path mz start gl q'" "length q' = Suc y" by blast
    with p(3) have "length p \<le> Suc y" by fastforce
    then show "length p - 1 \<le> y" by simp
  qed
  with p ne show ?thesis by simp
qed

theorem astar_optimal_witness:
  "square_grid Game_GRID_SIZE Game_maze \<and> grid_path Game_maze (0, 0) (9, 9) Game_route
   \<and> astar Game_GRID_SIZE Game_maze (0, 0) (9, 9) = Some (Inr Game_route)
   \<and> shortest_distance Game_maze (0, 0) (9, 9) = 26"
  using astar_optimal[OF square_Game Game_route_path] square_Game Game_route_path
  by (simp add: astar_Game Game_route_length)

text \<open>
  Claim C9, as stated, fails. With the global of \<^verbatim>\<open>Game.py\<close> (10) and the grid of 3 rows of 3
  cells whose second column is a wall, no path of open cells joins (0,0) and (2,2), and
  \<open>astar\<close> raises \<open>IndexError\<close> when it reads \<open>maze[3]\<close>. Nor is it enough that the global is
  the number of rows of the grid: on three rows of one cell, with a wall in the middle row
  and \<open>GRID_SIZE = 3\<close>, no path joins (0,0) and (0,2), the neighbour (1,0) of the start
  passes the bound, and reading \<open>maze[0][1]\<close> raises \<open>IndexError\<close>.
\<close>

theorem astar_raises_without_path:
  "\<not> (\<exists>p. grid_path wall3 (0, 0) (2, 2) p)
   \<and> astar Game_GRID_SIZE wall3 (0, 0) (2, 2) = Some (Inl IndexError)
   \<and> \<not> (\<exists>p. grid_path tall_grid (0, 0) (0, 2) p)
   \<and> astar (int (length tall_grid)) tall_grid (0, 0) (0, 2) = Some (Inl IndexError)"
proof (intro conjI)
  show "\<not> (\<exists>p. grid_path wall3 (0, 0) (2, 2) p)" by (rule wall3_no_path)
  show "astar Game_GRID_SIZE wall3 (0, 0) (2, 2) = Some (Inl IndexError)"
    by code_simp
  show "\<not> (\<exists>p. grid_path tall_grid (0, 0) (0, 2) p)" by (rule tall_grid_no_path)
  show "astar (int (length tall_grid)) tall_grid (0, 0) (0, 2) = Some (Inl IndexError)"
    by code_simp
qed

text \<open>
  Claim C9, amended. For every grid of \<open>GRID_SIZE\<close> rows of \<open>GRID_SIZE\<close> cells, where
  \<open>GRID_SIZE\<close> is the value of the module global that bounds both coordinates in \<open>astar\<close>
  (10 in the four modules), and every start and goal that no path of open cells of the grid
  joins, \<open>astar\<close> returns, raises no exception, and its result is the empty list.
\<close>

theorem astar_no_path:
  assumes "square_grid GRID_SIZE mz" and "\<not> (\<exists>q. grid_path mz start gl q)"
  shows "astar GRID_SIZE mz start gl = Some (Inr [])"
proof -
  from assms have "\<not> (\<exists>q. path_between GRID_SIZE mz start gl q)"
    by (simp add: path_between_grid_path)
  with assms(1) show ?thesis by (rule astar_not_found)
qed

theorem astar_no_path_witness:
  "square_grid Game_GRID_SIZE wall10 \<and> \<not> (\<exists>q. grid_path wall10 (0, 0) (9, 9) q)
   \<and> astar Game_GRID_SIZE wall10 (0, 0) (9, 9) = Some (Inr [])"
  using astar_no_path[OF square_wall10 wall10_no_path] square_wall10 wall10_no_path by simp

text \<open>
  Claim C3, as stated, fails for \<open>astar\<close>: the path it returns on the 10 by 10 grid without
  walls, from (0,0) to (9,9), begins with the start cell (0,0) and has 19 cells.
\<close>

theorem astar_includes_start:
  "map_option (map_sum id (\<lambda>p. (hd p, last p, length p))) (astar Game_GRID_SIZE grid10 (0, 0) (9, 9))
     = Some (Inr ((0, 0), (9, 9), 19))"
  by code_simp

text \<open>
  Claim C3, amended. Every non-empty path returned by \<open>astar\<close> runs from the start cell
  (inclusive) to the goal (inclusive) over open cells: its first element is the start, its
  last element the goal. On the 10 by 10 grid without walls, from (0,0) to (9,9), the path
  has 19 cells, that is 18 steps.
\<close>

theorem astar_path_shape:
  "(astar GRID_SIZE mz start gl = Some (Inr p) \<and> p \<noteq> [] \<longrightarrow>
      hd p = start \<and> last p = gl \<and> walk GRID_SIZE mz p)
   \<and> map_option (map_sum id length) (astar Game_GRID_SIZE grid10 (0, 0) (9, 9)) = Some (Inr 19)"
proof
  show "astar GRID_SIZE mz start gl = Some (Inr p) \<and> p \<noteq> [] \<longrightarrow>
      hd p = start \<and> last p = gl \<and> walk GRID_SIZE mz p"
    using astar_path_ends[of GRID_SIZE mz start gl p] by blast
  show "map_option (map_sum id length) (astar Game_GRID_SIZE grid10 (0, 0) (9, 9)) = Some (Inr 19)"
    by code_simp
qed

theorem astar_path_shape_witness:
  "astar Game_GRID_SIZE Game_maze (0, 0) (9, 9) = Some (Inr Game_route)
   \<and> Game_route \<noteq> [] \<and> hd Game_route = (0, 0) \<and> last Game_route = (9, 9)"
proof -
  have ne: "Game_route \<noteq> []" by (simp add: Game_route_def)
  from astar_path_shape[of Game_GRID_SIZE Game_maze "(0, 0)" "(9, 9)" Game_route] astar_Game ne
  show ?thesis by blast
qed

end
